theory Spec2Isabelle
  imports Main "HOL-Library.Sublist"
begin

section \<open>Strings\<close>

text \<open>
  A \<open>QString\<close> is modelled by the sequence of its UTF-8 bytes, an Isabelle \<open>string\<close>.
  Every pattern the engine and the reader search for is ASCII, and UTF-8 is
  self-synchronising, so searching and replacing on the bytes agrees with searching and
  replacing on the characters. The Qt library functions the sources call are written out
  below after the Qt documentation; case folding and white space are given for the ASCII
  range.
\<close>

text \<open>\<open>QString::replace(before, after)\<close> for a non-empty \<open>before\<close>: left to right, every
  non-overlapping occurrence, the inserted text is not searched again.\<close>

fun replaceNE :: "string \<Rightarrow> string \<Rightarrow> string \<Rightarrow> string" where
  "replaceNE bef after [] = []"
| "replaceNE bef after (c # cs) =
     (if prefix bef (c # cs)
      then after @ replaceNE bef after (drop (length bef - 1) cs)
      else c # replaceNE bef after cs)"

text \<open>With an empty \<open>before\<close> Qt inserts \<open>after\<close> in front of every character and at the
  end.\<close>

definition replace :: "string \<Rightarrow> string \<Rightarrow> string \<Rightarrow> string" where
  "replace bef after s =
     (if bef = [] then after @ concat (map (\<lambda>c. c # after) s)
      else replaceNE bef after s)"

text \<open>\<open>QString::replace(QChar, QChar)\<close>.\<close>

definition replaceChar :: "char \<Rightarrow> char \<Rightarrow> string \<Rightarrow> string" where
  "replaceChar bef after s = map (\<lambda>c. if c = bef then after else c) s"

text \<open>
  The regular expression of \<open>parseTemplate\<close> is \<^verbatim>\<open>\{([^\}]*:|)source\??\}\<close>. No part of it
  between the two braces can match a closing brace, so a match that starts at an opening
  brace ends at the first closing brace after it, and the text between them (the body) is
  \<open>source\<close> or \<open>source?\<close>, alone or after a prefix that ends in a colon. The prefix is the
  captured group.
\<close>

definition sourceCapture :: "string \<Rightarrow> string option" where
  "sourceCapture body =
     (let stem = (if suffix ''?'' body then butlast body else body)
      in if suffix ''source'' stem \<and> (length stem = 6 \<or> suffix '':source'' stem)
         then Some (take (length stem - 6) stem)
         else None)"

text \<open>A match at the start of the string: the captured group and the length of the match.\<close>

definition matchSource :: "string \<Rightarrow> (string \<times> nat) option" where
  "matchSource s =
     (case s of
        [] \<Rightarrow> None
      | c # t \<Rightarrow>
          if c = CHR ''{'' then
            (let body = takeWhile (\<lambda>x. x \<noteq> CHR ''}'') t
             in if length body < length t
                then (case sourceCapture body of
                        Some cap \<Rightarrow> Some (cap, length body + 2)
                      | None \<Rightarrow> None)
                else None)
          else None)"

text \<open>\<open>QString::replace(QRegExp, after)\<close> replaces \<^verbatim>\<open>\1\<close> in \<open>after\<close> by the captured group
  of each match (the expression has one group).\<close>

fun backrefs :: "string \<Rightarrow> string \<Rightarrow> string" where
  "backrefs cap (a # b # cs) =
     (if a = CHR 0x5C \<and> b = CHR ''1'' then cap @ backrefs cap cs
      else a # backrefs cap (b # cs))"
| "backrefs cap cs = cs"

fun replaceSource :: "string \<Rightarrow> string \<Rightarrow> string" where
  "replaceSource after [] = []"
| "replaceSource after (c # cs) =
     (case matchSource (c # cs) of
        Some (cap, n) \<Rightarrow> backrefs cap after @ replaceSource after (drop (n - 1) cs)
      | None \<Rightarrow> c # replaceSource after cs)"

text \<open>\<open>QUrl::toPercentEncoding\<close> with its default arguments: every byte outside the
  unreserved set becomes a percent sign and two upper-case hexadecimal digits.\<close>

definition unreserved :: "char \<Rightarrow> bool" where
  "unreserved c \<longleftrightarrow>
     c \<in> set ''abcdefghijklmnopqrstuvwxyzABCDEFGHIJKLMNOPQRSTUVWXYZ0123456789-._~''"

definition toHex :: "nat \<Rightarrow> char" where
  "toHex n = (if n > 9 then char_of (n - 10 + 65) else char_of (n + 48))"

definition toPercentEncoding :: "string \<Rightarrow> string" where
  "toPercentEncoding s =
     concat (map (\<lambda>c. if unreserved c then [c]
                       else [CHR ''%'', toHex ((of_char c :: nat) div 16),
                             toHex ((of_char c :: nat) mod 16)]) s)"

text \<open>\<open>QString::toLower\<close>, on the ASCII letters.\<close>

definition toLower_char :: "char \<Rightarrow> char" where
  "toLower_char c =
     (case map_of (zip ''ABCDEFGHIJKLMNOPQRSTUVWXYZ'' ''abcdefghijklmnopqrstuvwxyz'') c of
        Some l \<Rightarrow> l
      | None \<Rightarrow> c)"

definition toLower :: "string \<Rightarrow> string" where
  "toLower s = map toLower_char s"

text \<open>\<open>QString::trimmed\<close>: white space is removed at both ends; \<open>QChar::isSpace\<close> on the
  ASCII range is the characters 9 to 13 and the blank.\<close>

definition isSpace :: "char \<Rightarrow> bool" where
  "isSpace c \<longleftrightarrow> c \<in> set [CHR 0x09, CHR 0x0A, CHR 0x0B, CHR 0x0C, CHR 0x0D, CHR 0x20]"

definition trimmed :: "string \<Rightarrow> string" where
  "trimmed s = rev (dropWhile isSpace (rev (dropWhile isSpace s)))"

definition startsWith :: "string \<Rightarrow> char \<Rightarrow> bool" where
  "startsWith s c = (case s of [] \<Rightarrow> False | x # _ \<Rightarrow> x = c)"

definition endsWith :: "string \<Rightarrow> char \<Rightarrow> bool" where
  "endsWith s c = (case rev s of [] \<Rightarrow> False | x # _ \<Rightarrow> x = c)"

text \<open>\<open>QStringList::join\<close> and \<open>QString::split\<close> with \<open>SkipEmptyParts\<close>.\<close>

fun join :: "string \<Rightarrow> string list \<Rightarrow> string" where
  "join sep [] = []"
| "join sep [x] = x"
| "join sep (x # y # ys) = x @ sep @ join sep (y # ys)"

fun splitParts :: "char \<Rightarrow> string \<Rightarrow> string \<Rightarrow> string list" where
  "splitParts sep cur [] = [cur]"
| "splitParts sep cur (c # cs) =
     (if c = sep then cur # splitParts sep [] cs else splitParts sep (cur @ [c]) cs)"

definition split :: "char \<Rightarrow> string \<Rightarrow> string list" where
  "split sep s = filter (\<lambda>p. p \<noteq> []) (splitParts sep [] s)"

section \<open>The engine\<close>

text \<open>The process-wide configuration \<open>parseTemplate\<close> reads: \<open>QLocale().name()\<close> and
  \<open>QCoreApplication::applicationName()\<close>.\<close>

record environment =
  localeName :: string
  applicationName :: string

type_synonym Parameter = "string \<times> string"

type_synonym Parameters = "Parameter list"

datatype Operation = UnknownOperation | GetOperation | PostOperation

text \<open>\<open>OpenSearchEnginePrivate\<close>. The image and the script engine object are left out; the
  three pointers are kept as what the code tests of them: whether a network access
  manager and a delegate are attached, and which reply is the pending one.\<close>

record OpenSearchEngine =
  name :: string
  description :: string
  imageUrl :: string
  tags :: "string list"
  searchUrlTemplate :: string
  suggestionsUrlTemplate :: string
  searchParameters :: Parameters
  suggestionsParameters :: Parameters
  searchMethod :: string
  suggestionsMethod :: string
  networkAccessManager :: bool
  suggestionsReply :: "nat option"
  delegate :: bool

text \<open>The constructor fills \<open>requestMethods\<close> with two entries and nothing writes to it
  afterwards, so it is a constant here.\<close>

definition requestMethods :: "string \<rightharpoonup> Operation" where
  "requestMethods = [''get'' \<mapsto> GetOperation, ''post'' \<mapsto> PostOperation]"

definition newEngine :: OpenSearchEngine where
  "newEngine =
     \<lparr> name = [], description = [], imageUrl = [], tags = [],
       searchUrlTemplate = [], suggestionsUrlTemplate = [],
       searchParameters = [], suggestionsParameters = [],
       searchMethod = ''get'', suggestionsMethod = ''get'',
       networkAccessManager = False, suggestionsReply = None, delegate = False \<rparr>"

definition parseTemplate :: "environment \<Rightarrow> string \<Rightarrow> string \<Rightarrow> string" where
  "parseTemplate env searchTerm searchTemplate =
     (let language = replaceChar (CHR ''_'') (CHR ''-'') (localeName env);
          result = searchTemplate;
          result = replace ''{count}'' ''20'' result;
          result = replace ''{startIndex}'' ''0'' result;
          result = replace ''{startPage}'' ''0'' result;
          result = replace ''{language}'' language result;
          result = replace ''{inputEncoding}'' ''UTF-8'' result;
          result = replace ''{outputEncoding}'' ''UTF-8'' result;
          result = replaceSource (applicationName env) result;
          result = replace ''{searchTerms}'' (toPercentEncoding searchTerm) result
      in result)"

text \<open>The earlier revision of the engine, kept in the repository, inserts the search term
  as it is.\<close>

definition parseTemplate_legacy :: "environment \<Rightarrow> string \<Rightarrow> string \<Rightarrow> string" where
  "parseTemplate_legacy env searchTerm searchTemplate =
     (let language = replaceChar (CHR ''_'') (CHR ''-'') (localeName env);
          result = searchTemplate;
          result = replace ''{count}'' ''20'' result;
          result = replace ''{startIndex}'' ''0'' result;
          result = replace ''{startPage}'' ''0'' result;
          result = replace ''{language}'' language result;
          result = replace ''{inputEncoding}'' ''UTF-8'' result;
          result = replace ''{outputEncoding}'' ''UTF-8'' result;
          result = replaceSource (applicationName env) result;
          result = replace ''{searchTerms}'' searchTerm result
      in result)"

text \<open>A \<open>QUrl\<close> is kept as the encoded text it was made from and the query items added to
  it since, in the order of the calls to \<open>addQueryItem\<close>. \<open>QUrl()\<close> is the empty URL.\<close>

record QUrl =
  encoded :: string
  queryItems :: "(string \<times> string) list"

definition emptyUrl :: QUrl where
  "emptyUrl = \<lparr> encoded = [], queryItems = [] \<rparr>"

definition fromEncoded :: "string \<Rightarrow> QUrl" where
  "fromEncoded s = \<lparr> encoded = s, queryItems = [] \<rparr>"

definition addQueryItem :: "QUrl \<Rightarrow> string \<Rightarrow> string \<Rightarrow> QUrl" where
  "addQueryItem u k v = u\<lparr> queryItems := queryItems u @ [(k, v)] \<rparr>"

text \<open>The loop over the parameter list, from \<open>constBegin()\<close> to \<open>constEnd()\<close>.\<close>

fun addParameters :: "environment \<Rightarrow> string \<Rightarrow> Parameters \<Rightarrow> QUrl \<Rightarrow> QUrl" where
  "addParameters env searchTerm [] retVal = retVal"
| "addParameters env searchTerm (i # rest) retVal =
     addParameters env searchTerm rest
       (addQueryItem retVal (fst i) (parseTemplate env searchTerm (snd i)))"

definition searchUrl :: "environment \<Rightarrow> OpenSearchEngine \<Rightarrow> string \<Rightarrow> QUrl" where
  "searchUrl env d searchTerm =
     (if searchUrlTemplate d = [] then emptyUrl
      else
        let retVal = fromEncoded (parseTemplate env searchTerm (searchUrlTemplate d))
        in if searchMethod d \<noteq> ''post''
           then addParameters env searchTerm (searchParameters d) retVal
           else retVal)"

definition providesSuggestions :: "OpenSearchEngine \<Rightarrow> bool" where
  "providesSuggestions d \<longleftrightarrow> suggestionsUrlTemplate d \<noteq> []"

definition suggestionsUrl :: "environment \<Rightarrow> OpenSearchEngine \<Rightarrow> string \<Rightarrow> QUrl" where
  "suggestionsUrl env d searchTerm =
     (if suggestionsUrlTemplate d = [] then emptyUrl
      else
        let retVal = fromEncoded (parseTemplate env searchTerm (suggestionsUrlTemplate d))
        in if suggestionsMethod d \<noteq> ''post''
           then addParameters env searchTerm (suggestionsParameters d) retVal
           else retVal)"

definition setSearchMethod :: "string \<Rightarrow> OpenSearchEngine \<Rightarrow> OpenSearchEngine" where
  "setSearchMethod method d =
     (let requestMethod = toLower method
      in if requestMethod \<notin> dom requestMethods then d
         else d\<lparr> searchMethod := requestMethod \<rparr>)"

definition setSuggestionsMethod :: "string \<Rightarrow> OpenSearchEngine \<Rightarrow> OpenSearchEngine" where
  "setSuggestionsMethod method d =
     (let requestMethod = toLower method
      in if requestMethod \<notin> dom requestMethods then d
         else d\<lparr> suggestionsMethod := requestMethod \<rparr>)"

definition isValid :: "OpenSearchEngine \<Rightarrow> bool" where
  "isValid d \<longleftrightarrow> name d \<noteq> [] \<and> searchUrlTemplate d \<noteq> []"

section \<open>The reader\<close>

text \<open>
  A document is taken as the sequence of tokens that \<open>QXmlStreamReader\<close> delivers for it;
  the input of the reader (\<open>device\<close>) is the list of the tokens still to come. A start
  element carries its name, its namespace URI and its attributes; an empty element is a
  start element followed by its end element. Where the input is not well formed the
  token \<open>Invalid\<close> comes; an input that stops early just ends.
\<close>

type_synonym Attributes = "(string \<times> string) list"

datatype TokenType =
    NoToken
  | Invalid
  | StartDocument
  | EndDocument
  | StartElement string string Attributes
  | EndElement string string
  | Characters string
  | Comment
  | DTD
  | EntityReference string
  | ProcessingInstruction

datatype XmlError =
    CustomError string
  | NotWellFormedError
  | PrematureEndOfDocumentError
  | UnexpectedElementError

record QXmlStreamReader =
  token :: TokenType
  device :: "TokenType list"
  error :: "XmlError option"

text \<open>\<open>atEnd()\<close> holds at the end of the document and after an error. \<open>name()\<close>,
  \<open>namespaceUri()\<close> and \<open>attributes()\<close> are empty unless the current token is a start or an
  end element; \<open>attributes().value(k)\<close> is the value of the first attribute named \<open>k\<close>,
  empty when there is none.\<close>

definition atEnd :: "QXmlStreamReader \<Rightarrow> bool" where
  "atEnd r \<longleftrightarrow> token r = EndDocument \<or> token r = Invalid"

definition isStartElement :: "QXmlStreamReader \<Rightarrow> bool" where
  "isStartElement r = (case token r of StartElement _ _ _ \<Rightarrow> True | _ \<Rightarrow> False)"

definition isEndElement :: "QXmlStreamReader \<Rightarrow> bool" where
  "isEndElement r = (case token r of EndElement _ _ \<Rightarrow> True | _ \<Rightarrow> False)"

definition elementName :: "QXmlStreamReader \<Rightarrow> string" where
  "elementName r =
     (case token r of StartElement n _ _ \<Rightarrow> n | EndElement n _ \<Rightarrow> n | _ \<Rightarrow> [])"

definition namespaceUri :: "QXmlStreamReader \<Rightarrow> string" where
  "namespaceUri r =
     (case token r of StartElement _ u _ \<Rightarrow> u | EndElement _ u \<Rightarrow> u | _ \<Rightarrow> [])"

definition attributes :: "QXmlStreamReader \<Rightarrow> Attributes" where
  "attributes r = (case token r of StartElement _ _ a \<Rightarrow> a | _ \<Rightarrow> [])"

definition attrValue :: "Attributes \<Rightarrow> string \<Rightarrow> string" where
  "attrValue a k = (case map_of a k of Some v \<Rightarrow> v | None \<Rightarrow> [])"

definition hasError :: "QXmlStreamReader \<Rightarrow> bool" where
  "hasError r \<longleftrightarrow> error r \<noteq> None"

text \<open>\<open>raiseError\<close> records the error and makes \<open>Invalid\<close> the current token.\<close>

definition raiseError :: "XmlError \<Rightarrow> QXmlStreamReader \<Rightarrow> QXmlStreamReader" where
  "raiseError x r = r\<lparr> token := Invalid, error := Some x \<rparr>"

text \<open>\<open>readNext()\<close> moves to the next token. After an error it stays where it is; at the
  end of the input it raises \<open>PrematureEndOfDocumentError\<close>.\<close>

definition readNext :: "QXmlStreamReader \<Rightarrow> QXmlStreamReader" where
  "readNext r =
     (if token r = Invalid then r
      else case device r of
             [] \<Rightarrow> raiseError PrematureEndOfDocumentError r
           | t # ts \<Rightarrow>
               if t = Invalid then raiseError NotWellFormedError (r\<lparr> device := ts \<rparr>)
               else r\<lparr> token := t, device := ts \<rparr>)"

text \<open>The measure of the loops: the tokens still to come, and one more while the reader
  can move.\<close>

definition unread :: "QXmlStreamReader \<Rightarrow> nat" where
  "unread r = length (device r) + (if atEnd r then 0 else 1)"

lemma unread_readNext_less: "\<not> atEnd r \<Longrightarrow> unread (readNext r) < unread r"
  by (auto simp: unread_def readNext_def atEnd_def raiseError_def split: list.splits)

lemma unread_readNext_le: "unread (readNext r) \<le> unread r"
  by (auto simp: unread_def readNext_def atEnd_def raiseError_def split: list.splits)

text \<open>\<open>readElementText()\<close>: called on a start element, it collects the text up to the end
  element; comments and processing instructions are passed over, and any other token, a
  child element among them, raises an error and ends the reading with the text read so
  far.\<close>

function readElementText_loop :: "QXmlStreamReader \<Rightarrow> string \<Rightarrow> QXmlStreamReader \<times> string" where
  "readElementText_loop r result =
     (let r1 = readNext r
      in case token r1 of
           Characters t \<Rightarrow> readElementText_loop r1 (result @ t)
         | EntityReference t \<Rightarrow> readElementText_loop r1 (result @ t)
         | EndElement _ _ \<Rightarrow> (r1, result)
         | ProcessingInstruction \<Rightarrow> readElementText_loop r1 result
         | Comment \<Rightarrow> readElementText_loop r1 result
         | _ \<Rightarrow> (if error r1 = None then raiseError UnexpectedElementError r1 else r1, result))"
  by pat_completeness auto

termination
  apply (relation "measure (\<lambda>(r, s). length (device r))")
  apply (auto simp: readNext_def raiseError_def split: if_splits list.splits)
  done

declare readElementText_loop.simps [simp del]

definition readElementText :: "QXmlStreamReader \<Rightarrow> QXmlStreamReader \<times> string" where
  "readElementText r = (if isStartElement r then readElementText_loop r [] else (r, []))"

text \<open>The body of \<open>skipSubtree\<close> is its loop; after the call for a nested start element
  the loop goes on.\<close>

function skipSubtree :: "QXmlStreamReader \<Rightarrow> QXmlStreamReader" where
  "skipSubtree r =
     (if atEnd r then r
      else
        let r1 = readNext r
        in if isEndElement r1 then r1
           else if isStartElement r1 then skipSubtree (skipSubtree r1)
           else skipSubtree r1)"
  by pat_completeness auto

lemma unread_skipSubtree_dom:
  "skipSubtree_dom r \<Longrightarrow> unread (skipSubtree r) \<le> unread r"
proof (induction r rule: skipSubtree.pinduct)
  case (1 r)
  show ?case
  proof (cases "atEnd r")
    case True
    then show ?thesis using "1.hyps" by (simp add: skipSubtree.psimps)
  next
    case False
    have lt: "unread (readNext r) < unread r"
      using False by (rule unread_readNext_less)
    show ?thesis
    proof (cases "isEndElement (readNext r)")
      case True
      then show ?thesis using "1.hyps" False lt by (simp add: skipSubtree.psimps Let_def)
    next
      case notEnd: False
      show ?thesis
      proof (cases "isStartElement (readNext r)")
        case True
        have a: "unread (skipSubtree (readNext r)) \<le> unread (readNext r)"
          using "1.IH"(1) False notEnd True by simp
        have b: "unread (skipSubtree (skipSubtree (readNext r))) \<le> unread (skipSubtree (readNext r))"
          using "1.IH"(2) False notEnd True by simp
        show ?thesis using "1.hyps" False notEnd True a b lt
          by (simp add: skipSubtree.psimps Let_def)
      next
        case notStart: False
        have a: "unread (skipSubtree (readNext r)) \<le> unread (readNext r)"
          using "1.IH"(3) False notEnd notStart by simp
        show ?thesis using "1.hyps" False notEnd notStart a lt
          by (simp add: skipSubtree.psimps Let_def)
      qed
    qed
  qed
qed

termination skipSubtree
proof (relation "measure unread")
  show "wf (measure unread)" by simp
next
  fix r r1
  assume "\<not> atEnd r" "r1 = readNext r" 
  then show "(r1, r) \<in> measure unread" by (simp add: unread_readNext_less)
next
  fix r r1
  assume a: "\<not> atEnd r" "r1 = readNext r" and d: "skipSubtree_dom r1"
  have "unread (skipSubtree r1) \<le> unread r1" using d by (rule unread_skipSubtree_dom)
  then show "(skipSubtree r1, r) \<in> measure unread"
    using a unread_readNext_less[of r] by simp
next
  fix r r1
  assume "\<not> atEnd r" "r1 = readNext r"
  then show "(r1, r) \<in> measure unread" by (simp add: unread_readNext_less)
qed

declare skipSubtree.simps [simp del]

lemma unread_skipSubtree: "unread (skipSubtree r) \<le> unread r"
proof (induction r rule: skipSubtree.induct)
  case (1 r)
  show ?case
  proof (cases "atEnd r")
    case True
    then show ?thesis by (subst skipSubtree.simps) simp
  next
    case False
    have lt: "unread (readNext r) < unread r"
      using False by (rule unread_readNext_less)
    show ?thesis
    proof (cases "isEndElement (readNext r)")
      case True
      then show ?thesis using False lt by (subst skipSubtree.simps) (simp add: Let_def)
    next
      case notEnd: False
      show ?thesis
      proof (cases "isStartElement (readNext r)")
        case True
        have a: "unread (skipSubtree (readNext r)) \<le> unread (readNext r)"
          using "1.IH"(1) False notEnd True by simp
        have b: "unread (skipSubtree (skipSubtree (readNext r))) \<le> unread (skipSubtree (readNext r))"
          using "1.IH"(2) False notEnd True by simp
        show ?thesis using False notEnd True a b lt
          by (subst skipSubtree.simps) (simp add: Let_def)
      next
        case notStart: False
        have a: "unread (skipSubtree (readNext r)) \<le> unread (readNext r)"
          using "1.IH"(3) False notEnd notStart by simp
        show ?thesis using False notEnd notStart a lt
          by (subst skipSubtree.simps) (simp add: Let_def)
      qed
    qed
  qed
qed

lemma unread_raiseError: "unread (raiseError x r) \<le> unread r"
  by (simp add: unread_def raiseError_def atEnd_def)

lemma unread_readElementText_loop:
  "unread (fst (readElementText_loop r s)) \<le> unread r"
proof (induction r s rule: readElementText_loop.induct)
  case (1 r result)
  have le: "unread (readNext r) \<le> unread r" by (rule unread_readNext_le)
  show ?case
  proof (cases "token (readNext r)")
    case (Characters t)
    then show ?thesis using "1.IH"(1)[OF refl Characters] le
      by (subst readElementText_loop.simps) (simp add: Let_def)
  next
    case (EntityReference t)
    then show ?thesis using "1.IH"(3)[OF refl EntityReference] le
      by (subst readElementText_loop.simps) (simp add: Let_def)
  next
    case ProcessingInstruction
    then show ?thesis using "1.IH"(4)[OF refl ProcessingInstruction] le
      by (subst readElementText_loop.simps) (simp add: Let_def)
  next
    case Comment
    then show ?thesis using "1.IH"(2)[OF refl Comment] le
      by (subst readElementText_loop.simps) (simp add: Let_def)
  qed (use le unread_raiseError[of UnexpectedElementError "readNext r"] in
        \<open>(subst readElementText_loop.simps, simp add: Let_def)+\<close>)
qed

lemma unread_readElementText: "unread (fst (readElementText r)) \<le> unread r"
  by (simp add: readElementText_def unread_readElementText_loop)

text \<open>The setters of the engine that store their argument as it is.\<close>

definition setName :: "string \<Rightarrow> OpenSearchEngine \<Rightarrow> OpenSearchEngine" where
  "setName n d = d\<lparr> name := n \<rparr>"

definition setDescription :: "string \<Rightarrow> OpenSearchEngine \<Rightarrow> OpenSearchEngine" where
  "setDescription n d = d\<lparr> description := n \<rparr>"

definition setImageUrl :: "string \<Rightarrow> OpenSearchEngine \<Rightarrow> OpenSearchEngine" where
  "setImageUrl u d = d\<lparr> imageUrl := u \<rparr>"

definition setTags :: "string list \<Rightarrow> OpenSearchEngine \<Rightarrow> OpenSearchEngine" where
  "setTags t d = d\<lparr> tags := t \<rparr>"

definition setSearchUrlTemplate :: "string \<Rightarrow> OpenSearchEngine \<Rightarrow> OpenSearchEngine" where
  "setSearchUrlTemplate t d = d\<lparr> searchUrlTemplate := t \<rparr>"

definition setSuggestionsUrlTemplate :: "string \<Rightarrow> OpenSearchEngine \<Rightarrow> OpenSearchEngine" where
  "setSuggestionsUrlTemplate t d = d\<lparr> suggestionsUrlTemplate := t \<rparr>"

definition setSearchParameters :: "Parameters \<Rightarrow> OpenSearchEngine \<Rightarrow> OpenSearchEngine" where
  "setSearchParameters p d = d\<lparr> searchParameters := p \<rparr>"

definition setSuggestionsParameters :: "Parameters \<Rightarrow> OpenSearchEngine \<Rightarrow> OpenSearchEngine" where
  "setSuggestionsParameters p d = d\<lparr> suggestionsParameters := p \<rparr>"

text \<open>The handlers of the children of the root. They work on the reader and on the
  engine \<open>m_engine\<close> points to. \<open>Q_ASSERT\<close> is compiled out of release builds and is not part
  of the model.\<close>

definition readName :: "QXmlStreamReader \<times> OpenSearchEngine \<Rightarrow> QXmlStreamReader \<times> OpenSearchEngine" where
  "readName s = (case s of (r, e) \<Rightarrow>
     (case readElementText r of (r', text) \<Rightarrow> (r', setName text e)))"

definition readDescription :: "QXmlStreamReader \<times> OpenSearchEngine \<Rightarrow> QXmlStreamReader \<times> OpenSearchEngine" where
  "readDescription s = (case s of (r, e) \<Rightarrow>
     (case readElementText r of (r', text) \<Rightarrow> (r', setDescription text e)))"

definition readImage :: "QXmlStreamReader \<times> OpenSearchEngine \<Rightarrow> QXmlStreamReader \<times> OpenSearchEngine" where
  "readImage s = (case s of (r, e) \<Rightarrow>
     (case readElementText r of (r', text) \<Rightarrow> (r', setImageUrl text e)))"

definition readTags :: "QXmlStreamReader \<times> OpenSearchEngine \<Rightarrow> QXmlStreamReader \<times> OpenSearchEngine" where
  "readTags s = (case s of (r, e) \<Rightarrow>
     (case readElementText r of (r', text) \<Rightarrow> (r', setTags (split (CHR '' '') text) e)))"

definition readParameter :: "QXmlStreamReader \<Rightarrow> Parameters \<Rightarrow> QXmlStreamReader \<times> Parameters" where
  "readParameter r parameters =
     (let key = attrValue (attributes r) ''name'';
          val = attrValue (attributes r) ''value''
      in if key = [] \<or> val = [] then (r, parameters)
         else (readNext r, parameters @ [(key, val)]))"

lemma unread_readParameter: "unread (fst (readParameter r ps)) \<le> unread r"
  by (simp add: readParameter_def Let_def unread_readNext_le)

text \<open>The loop of \<open>readUrl\<close> over the children of the \<open>Url\<close> element.\<close>

function readUrl_loop :: "QXmlStreamReader \<Rightarrow> Parameters \<Rightarrow> QXmlStreamReader \<times> Parameters" where
  "readUrl_loop r parameters =
     (if atEnd r then (r, parameters)
      else
        let r1 = readNext r
        in if isEndElement r1 then (r1, parameters)
           else if \<not> isStartElement r1 then readUrl_loop r1 parameters
           else if elementName r1 = ''Param'' \<or> elementName r1 = ''Parameter''
           then (case readParameter r1 parameters of (r2, ps2) \<Rightarrow> readUrl_loop r2 ps2)
           else readUrl_loop (skipSubtree r1) parameters)"
  by pat_completeness auto

termination
proof (relation "measure (\<lambda>(r, ps). unread r)")
  show "wf (measure (\<lambda>(r, ps). unread r))" by simp
next
  fix r :: QXmlStreamReader and parameters :: Parameters and r1
  assume "\<not> atEnd r" "r1 = readNext r"
  then show "((r1, parameters), (r, parameters)) \<in> measure (\<lambda>(r, ps). unread r)"
    by (simp add: unread_readNext_less)
next
  fix r :: QXmlStreamReader and parameters :: Parameters and r1 x r2 ps2
  assume a: "\<not> atEnd r" "r1 = readNext r" and x: "(r2, ps2) = readParameter r1 parameters"
  have "unread r2 \<le> unread r1"
    using unread_readParameter[of r1 parameters] x[symmetric] by simp
  then show "((r2, ps2), (r, parameters)) \<in> measure (\<lambda>(r, ps). unread r)"
    using a unread_readNext_less[of r] by simp
next
  fix r :: QXmlStreamReader and parameters :: Parameters and r1
  assume a: "\<not> atEnd r" "r1 = readNext r"
  then show "((skipSubtree r1, parameters), (r, parameters)) \<in> measure (\<lambda>(r, ps). unread r)"
    using unread_skipSubtree[of r1] unread_readNext_less[of r] by simp
qed

declare readUrl_loop.simps [simp del]

lemma unread_readUrl_loop: "unread (fst (readUrl_loop r ps)) \<le> unread r"
proof (induction r ps rule: readUrl_loop.induct)
  case (1 r parameters)
  show ?case
  proof (cases "atEnd r")
    case True
    then show ?thesis by (subst readUrl_loop.simps) simp
  next
    case False
    have lt: "unread (readNext r) < unread r"
      using False by (rule unread_readNext_less)
    show ?thesis
    proof (cases "isEndElement (readNext r)")
      case True
      then show ?thesis using False lt by (subst readUrl_loop.simps) (simp add: Let_def)
    next
      case notEnd: False
      show ?thesis
      proof (cases "isStartElement (readNext r)")
        case notStart: False
        have "unread (fst (readUrl_loop (readNext r) parameters)) \<le> unread (readNext r)"
          using "1.IH"(1) False notEnd notStart by simp
        then show ?thesis using False notEnd notStart lt
          by (subst readUrl_loop.simps) (simp add: Let_def)
      next
        case True
        show ?thesis
        proof (cases "elementName (readNext r) = ''Param'' \<or> elementName (readNext r) = ''Parameter''")
          case isParam: True
          obtain r2 ps2 where rp: "readParameter (readNext r) parameters = (r2, ps2)"
            by (cases "readParameter (readNext r) parameters")
          have a: "unread r2 \<le> unread (readNext r)"
            using unread_readParameter[of "readNext r" parameters] rp by simp
          have b: "unread (fst (readUrl_loop r2 ps2)) \<le> unread r2"
            using "1.IH"(2)[OF False refl notEnd _ isParam rp[symmetric]] True by simp
          show ?thesis using False notEnd True isParam rp a b lt
            by (subst readUrl_loop.simps) (simp add: Let_def)
        next
          case notParam: False
          have a: "unread (skipSubtree (readNext r)) \<le> unread (readNext r)"
            by (rule unread_skipSubtree)
          have b: "unread (fst (readUrl_loop (skipSubtree (readNext r)) parameters))
                     \<le> unread (skipSubtree (readNext r))"
            using "1.IH"(3) False notEnd True notParam by simp
          show ?thesis using False notEnd True notParam a b lt
            by (subst readUrl_loop.simps) (simp add: Let_def)
        qed
      qed
    qed
  qed
qed

definition readUrl :: "QXmlStreamReader \<times> OpenSearchEngine \<Rightarrow> QXmlStreamReader \<times> OpenSearchEngine" where
  "readUrl s = (case s of (r, e) \<Rightarrow>
     (let type0 = attrValue (attributes r) ''type'';
          url = attrValue (attributes r) ''template'';
          method = attrValue (attributes r) ''method'';
          type = (if type0 = [] \<or> type0 = ''application/xhtml+xml'' then ''text/html'' else type0)
      in if url = [] then (skipSubtree r, e)
         else if type = ''application/x-suggestions+json'' \<and> suggestionsUrlTemplate e \<noteq> []
         then (skipSubtree r, e)
         else if type = ''text/html'' \<and> searchUrlTemplate e \<noteq> []
         then (skipSubtree r, e)
         else
           (case readUrl_loop r [] of (r', parameters) \<Rightarrow>
              if type = ''application/x-suggestions+json''
              then (r', setSuggestionsMethod method
                          (setSuggestionsParameters parameters
                            (setSuggestionsUrlTemplate url e)))
              else if type = ''text/html''
              then (r', setSearchMethod method
                          (setSearchParameters parameters
                            (setSearchUrlTemplate url e)))
              else (r', e))))"

lemma unread_readUrl: "unread (fst (readUrl (r, e))) \<le> unread r"
  using unread_readUrl_loop[of r "[]"] unread_skipSubtree[of r]
  by (auto simp: readUrl_def Let_def split: prod.splits)

lemma unread_readName: "unread (fst (readName (r, e))) \<le> unread r"
  using unread_readElementText[of r] by (auto simp: readName_def split: prod.splits)

lemma unread_readDescription: "unread (fst (readDescription (r, e))) \<le> unread r"
  using unread_readElementText[of r] by (auto simp: readDescription_def split: prod.splits)

lemma unread_readImage: "unread (fst (readImage (r, e))) \<le> unread r"
  using unread_readElementText[of r] by (auto simp: readImage_def split: prod.splits)

lemma unread_readTags: "unread (fst (readTags (r, e))) \<le> unread r"
  using unread_readElementText[of r] by (auto simp: readTags_def split: prod.splits)

text \<open>The loop of \<open>readDocument\<close> over the children of the root.\<close>

function readDocument_loop :: "QXmlStreamReader \<times> OpenSearchEngine \<Rightarrow> QXmlStreamReader \<times> OpenSearchEngine" where
  "readDocument_loop (r, e) =
     (if atEnd r then (r, e)
      else
        let r1 = readNext r
        in if isEndElement r1 then (r1, e)
           else if \<not> isStartElement r1 then readDocument_loop (r1, e)
           else if elementName r1 = ''ShortName'' then readDocument_loop (readName (r1, e))
           else if elementName r1 = ''Description'' then readDocument_loop (readDescription (r1, e))
           else if elementName r1 = ''Url'' then readDocument_loop (readUrl (r1, e))
           else if elementName r1 = ''Image'' then readDocument_loop (readImage (r1, e))
           else if elementName r1 = ''Tags'' then readDocument_loop (readTags (r1, e))
           else readDocument_loop (skipSubtree r1, e))"
  by pat_completeness auto

termination
proof (relation "measure (\<lambda>(r, e). unread r)")
  show "wf (measure (\<lambda>(r, e). unread r))" by simp
next
  fix r :: QXmlStreamReader and e :: OpenSearchEngine and r1
  assume "\<not> atEnd r" "r1 = readNext r"
  then show "((r1, e), (r, e)) \<in> measure (\<lambda>(r, e). unread r)"
    by (simp add: unread_readNext_less)
next
  fix r :: QXmlStreamReader and e :: OpenSearchEngine and r1
  assume "\<not> atEnd r" "r1 = readNext r"
  then show "(readName (r1, e), (r, e)) \<in> measure (\<lambda>(r, e). unread r)"
    using unread_readName[of r1 e] unread_readNext_less[of r]
    by (simp add: case_prod_beta)
next
  fix r :: QXmlStreamReader and e :: OpenSearchEngine and r1
  assume "\<not> atEnd r" "r1 = readNext r"
  then show "(readDescription (r1, e), (r, e)) \<in> measure (\<lambda>(r, e). unread r)"
    using unread_readDescription[of r1 e] unread_readNext_less[of r]
    by (simp add: case_prod_beta)
next
  fix r :: QXmlStreamReader and e :: OpenSearchEngine and r1
  assume "\<not> atEnd r" "r1 = readNext r"
  then show "(readUrl (r1, e), (r, e)) \<in> measure (\<lambda>(r, e). unread r)"
    using unread_readUrl[of r1 e] unread_readNext_less[of r]
    by (simp add: case_prod_beta)
next
  fix r :: QXmlStreamReader and e :: OpenSearchEngine and r1
  assume "\<not> atEnd r" "r1 = readNext r"
  then show "(readImage (r1, e), (r, e)) \<in> measure (\<lambda>(r, e). unread r)"
    using unread_readImage[of r1 e] unread_readNext_less[of r]
    by (simp add: case_prod_beta)
next
  fix r :: QXmlStreamReader and e :: OpenSearchEngine and r1
  assume "\<not> atEnd r" "r1 = readNext r"
  then show "(readTags (r1, e), (r, e)) \<in> measure (\<lambda>(r, e). unread r)"
    using unread_readTags[of r1 e] unread_readNext_less[of r]
    by (simp add: case_prod_beta)
next
  fix r :: QXmlStreamReader and e :: OpenSearchEngine and r1
  assume "\<not> atEnd r" "r1 = readNext r"
  then show "((skipSubtree r1, e), (r, e)) \<in> measure (\<lambda>(r, e). unread r)"
    using unread_skipSubtree[of r1] unread_readNext_less[of r] by simp
qed

declare readDocument_loop.simps [simp del]

text \<open>The first loop of \<open>readDocument\<close>: on to the first start element, or to the end.\<close>

function skipToStartElement :: "QXmlStreamReader \<Rightarrow> QXmlStreamReader" where
  "skipToStartElement r =
     (if \<not> isStartElement r \<and> \<not> atEnd r then skipToStartElement (readNext r) else r)"
  by pat_completeness auto

termination
  by (relation "measure unread") (auto simp: unread_readNext_less)

declare skipToStartElement.simps [simp del]

text \<open>\<open>readDocument\<close> makes the engine and \<open>read\<close> returns the pointer to it, which is
  never null.\<close>

definition readDocument :: "QXmlStreamReader \<Rightarrow> QXmlStreamReader \<times> OpenSearchEngine" where
  "readDocument r0 =
     (let m_engine = newEngine;
          r = skipToStartElement r0
      in if elementName r \<noteq> ''OpenSearchDescription''
            \<or> namespaceUri r \<noteq> ''http://a9.com/-/spec/opensearch/1.1/''
         then (raiseError (CustomError ''The file is not an OpenSearch 1.1 file.'') r, m_engine)
         else readDocument_loop (r, m_engine))"

definition clear :: QXmlStreamReader where
  "clear = \<lparr> token = NoToken, device = [], error = None \<rparr>"

definition setDevice :: "TokenType list \<Rightarrow> QXmlStreamReader \<Rightarrow> QXmlStreamReader" where
  "setDevice dev r = r\<lparr> token := NoToken, device := dev, error := None \<rparr>"

definition read :: "TokenType list \<Rightarrow> OpenSearchEngine option \<times> QXmlStreamReader" where
  "read dev = (case readDocument (setDevice dev clear) of (r, m_engine) \<Rightarrow> (Some m_engine, r))"

section \<open>Requests\<close>

text \<open>What the engine uses of \<open>QScriptEngine\<close> and \<open>QScriptValue\<close>; the script
  engine is a collaborator and its operations are parameters. \<open>toSequence\<close> is
  \<open>qScriptValueToSequence\<close> into a \<open>QStringList\<close>.\<close>

record 'v QScriptEngine =
  canEvaluate :: "string \<Rightarrow> bool"
  evaluate :: "string \<Rightarrow> 'v"
  property :: "'v \<Rightarrow> nat \<Rightarrow> 'v"
  isArray :: "'v \<Rightarrow> bool"
  toSequence :: "'v \<Rightarrow> string list"

text \<open>A reply of the network access manager: the request it answers, whether its
  \<open>finished()\<close> signal is connected to the engine's \<open>suggestionsObtained()\<close> slot, and
  the body \<open>readAll()\<close> returns.\<close>

record QNetworkReply =
  operation :: Operation
  url :: QUrl
  data :: string
  connected :: bool
  aborted :: bool
  finished :: bool
  closed :: bool
  deleted :: bool
  body :: string

text \<open>The engine together with what it talks to: the replies the manager has created
  (a reply pointer is an index into this list), the \<open>suggestions\<close> signals emitted so
  far and the calls made to the delegate's \<open>performSearchRequest\<close>.\<close>

record world =
  engine :: OpenSearchEngine
  replies :: "QNetworkReply list"
  emitted :: "string list list"
  performed :: "(QUrl \<times> Operation \<times> string) list"

datatype fault = NullPointer | InvalidPointer

definition updateReply :: "nat \<Rightarrow> (QNetworkReply \<Rightarrow> QNetworkReply) \<Rightarrow> world \<Rightarrow> world" where
  "updateReply i f w = w\<lparr> replies := (replies w)[i := f (replies w ! i)] \<rparr>"

definition suggestionsObtained :: "'v QScriptEngine \<Rightarrow> world \<Rightarrow> fault + world" where
  "suggestionsObtained js w =
     (case suggestionsReply (engine w) of
        None \<Rightarrow> Inl NullPointer
      | Some i \<Rightarrow>
          if \<not> i < length (replies w) then Inl InvalidPointer
          else
            let response = trimmed (body (replies w ! i));
                w1 = updateReply i (\<lambda>p. p\<lparr> closed := True, deleted := True \<rparr>) w;
                w2 = w1\<lparr> engine := (engine w1)\<lparr> suggestionsReply := None \<rparr> \<rparr>
            in if response = [] then Inr w2
               else if \<not> startsWith response (CHR ''['') \<or> \<not> endsWith response (CHR '']'')
               then Inr w2
               else if \<not> canEvaluate js response then Inr w2
               else
                 let responseParts = evaluate js response
                 in if \<not> isArray js (property js responseParts 1) then Inr w2
                    else
                      let suggestionsList = toSequence js (property js responseParts 1)
                      in Inr (w2\<lparr> emitted := emitted w2 @ [suggestionsList] \<rparr>))"

text \<open>A reply emits \<open>finished()\<close>: the slot runs if it is connected.\<close>

definition emitFinished :: "'v QScriptEngine \<Rightarrow> nat \<Rightarrow> world \<Rightarrow> fault + world" where
  "emitFinished js i w =
     (if connected (replies w ! i) then suggestionsObtained js w else Inr w)"

text \<open>\<open>QNetworkReply::abort()\<close> ends a running reply at once and emits \<open>finished()\<close>.\<close>

definition abort :: "'v QScriptEngine \<Rightarrow> nat \<Rightarrow> world \<Rightarrow> fault + world" where
  "abort js i w =
     (if finished (replies w ! i) then Inr w
      else emitFinished js i (updateReply i (\<lambda>p. p\<lparr> aborted := True, finished := True \<rparr>) w))"

text \<open>The loop that builds the list of \<open>key=value\<close> strings.\<close>

fun appendPairs :: "Parameters \<Rightarrow> string list \<Rightarrow> string list" where
  "appendPairs [] parameters = parameters"
| "appendPairs (i # rest) parameters =
     appendPairs rest (parameters @ [fst i @ ''='' @ snd i])"

definition newReply :: "Operation \<Rightarrow> QUrl \<Rightarrow> string \<Rightarrow> QNetworkReply" where
  "newReply op u dat =
     \<lparr> operation = op, url = u, data = dat, connected = False, aborted = False,
       finished = False, closed = False, deleted = False, body = [] \<rparr>"

text \<open>The block of \<open>requestSuggestions\<close> that runs when a reply is pending: disconnect,
  abort, \<open>deleteLater\<close>, clear the pointer.\<close>

definition cancelPending :: "'v QScriptEngine \<Rightarrow> world \<Rightarrow> fault + world" where
  "cancelPending js w =
     (case suggestionsReply (engine w) of
        None \<Rightarrow> Inr w
      | Some i \<Rightarrow>
          if \<not> i < length (replies w) then Inl InvalidPointer
          else
            (case abort js i (updateReply i (\<lambda>p. p\<lparr> connected := False \<rparr>) w) of
               Inl f \<Rightarrow> Inl f
             | Inr w' \<Rightarrow>
                 Inr ((updateReply i (\<lambda>p. p\<lparr> deleted := True \<rparr>) w')
                        \<lparr> engine := (engine w')\<lparr> suggestionsReply := None \<rparr> \<rparr>)))"

text \<open>The rest of \<open>requestSuggestions\<close>: hand the request to the manager and connect the
  reply's \<open>finished()\<close> to the slot.\<close>

definition sendRequest :: "environment \<Rightarrow> string \<Rightarrow> world \<Rightarrow> world" where
  "sendRequest env searchTerm w =
     (let d = engine w;
          reply =
            (if suggestionsMethod d = ''get''
             then newReply GetOperation (suggestionsUrl env d searchTerm) []
             else newReply PostOperation (suggestionsUrl env d searchTerm)
                    (join ''&'' (appendPairs (suggestionsParameters d) [])));
          i = length (replies w)
      in w\<lparr> engine := d\<lparr> suggestionsReply := Some i \<rparr>,
             replies := replies w @ [reply\<lparr> connected := True \<rparr>] \<rparr>)"

definition requestSuggestions ::
  "'v QScriptEngine \<Rightarrow> environment \<Rightarrow> string \<Rightarrow> world \<Rightarrow> fault + world" where
  "requestSuggestions js env searchTerm w =
     (if searchTerm = [] \<or> \<not> providesSuggestions (engine w) then Inr w
      else if \<not> networkAccessManager (engine w) then Inr w
      else
        (case cancelPending js w of
           Inl f \<Rightarrow> Inl f
         | Inr w1 \<Rightarrow> Inr (sendRequest env searchTerm w1)))"

definition requestSearchResults :: "environment \<Rightarrow> string \<Rightarrow> world \<Rightarrow> world" where
  "requestSearchResults env searchTerm w =
     (let d = engine w
      in if \<not> delegate d \<or> searchTerm = [] then w
         else
           let request = searchUrl env d searchTerm;
               operation = (case requestMethods (searchMethod d) of
                              Some op \<Rightarrow> op | None \<Rightarrow> UnknownOperation);
               dat = (if operation = PostOperation
                      then join ''&'' (appendPairs (searchParameters d) [])
                      else [])
           in w\<lparr> performed := performed w @ [(request, operation, dat)] \<rparr>)"

text \<open>The network finishes a reply that is still running, with the given body.\<close>

definition replyFinished :: "'v QScriptEngine \<Rightarrow> nat \<Rightarrow> string \<Rightarrow> world \<Rightarrow> fault + world" where
  "replyFinished js i b w =
     (if i < length (replies w) \<and> \<not> finished (replies w ! i)
      then emitFinished js i (updateReply i (\<lambda>p. p\<lparr> finished := True, body := b \<rparr>) w)
      else Inr w)"

text \<open>The two remaining setters: a manager or a delegate is attached or taken away.\<close>

definition setNetworkAccessManager :: "bool \<Rightarrow> OpenSearchEngine \<Rightarrow> OpenSearchEngine" where
  "setNetworkAccessManager m d = d\<lparr> networkAccessManager := m \<rparr>"

definition setDelegate :: "bool \<Rightarrow> OpenSearchEngine \<Rightarrow> OpenSearchEngine" where
  "setDelegate m d = d\<lparr> delegate := m \<rparr>"

text \<open>The calls a client can make on an engine, and the completion of a reply.\<close>

datatype event =
    SetName string
  | SetDescription string
  | SetSearchUrlTemplate string
  | SetSuggestionsUrlTemplate string
  | SetSearchParameters Parameters
  | SetSuggestionsParameters Parameters
  | SetSearchMethod string
  | SetSuggestionsMethod string
  | SetImageUrl string
  | SetTags "string list"
  | SetNetworkAccessManager bool
  | SetDelegate bool
  | RequestSuggestions string
  | RequestSearchResults string
  | ReplyFinished nat string

definition onEngine :: "(OpenSearchEngine \<Rightarrow> OpenSearchEngine) \<Rightarrow> world \<Rightarrow> world" where
  "onEngine f w = w\<lparr> engine := f (engine w) \<rparr>"

fun step :: "'v QScriptEngine \<Rightarrow> environment \<Rightarrow> event \<Rightarrow> world \<Rightarrow> fault + world" where
  "step js env (SetName s) w = Inr (onEngine (setName s) w)"
| "step js env (SetDescription s) w = Inr (onEngine (setDescription s) w)"
| "step js env (SetSearchUrlTemplate s) w = Inr (onEngine (setSearchUrlTemplate s) w)"
| "step js env (SetSuggestionsUrlTemplate s) w = Inr (onEngine (setSuggestionsUrlTemplate s) w)"
| "step js env (SetSearchParameters p) w = Inr (onEngine (setSearchParameters p) w)"
| "step js env (SetSuggestionsParameters p) w = Inr (onEngine (setSuggestionsParameters p) w)"
| "step js env (SetSearchMethod s) w = Inr (onEngine (setSearchMethod s) w)"
| "step js env (SetSuggestionsMethod s) w = Inr (onEngine (setSuggestionsMethod s) w)"
| "step js env (SetImageUrl s) w = Inr (onEngine (setImageUrl s) w)"
| "step js env (SetTags t) w = Inr (onEngine (setTags t) w)"
| "step js env (SetNetworkAccessManager m) w = Inr (onEngine (setNetworkAccessManager m) w)"
| "step js env (SetDelegate m) w = Inr (onEngine (setDelegate m) w)"
| "step js env (RequestSuggestions t) w = requestSuggestions js env t w"
| "step js env (RequestSearchResults t) w = Inr (requestSearchResults env t w)"
| "step js env (ReplyFinished i b) w = replyFinished js i b w"

fun run :: "'v QScriptEngine \<Rightarrow> environment \<Rightarrow> event list \<Rightarrow> world \<Rightarrow> fault + world" where
  "run js env [] w = Inr w"
| "run js env (ev # evs) w =
     (case step js env ev w of Inl f \<Rightarrow> Inl f | Inr w' \<Rightarrow> run js env evs w')"

text \<open>An engine on its own, before any request.\<close>

definition newWorld :: "OpenSearchEngine \<Rightarrow> world" where
  "newWorld d = \<lparr> engine = d, replies = [], emitted = [], performed = [] \<rparr>"

text \<open>Both methods are one of the two the engine knows.\<close>

definition methodsOk :: "OpenSearchEngine \<Rightarrow> bool" where
  "methodsOk d \<longleftrightarrow>
     (searchMethod d = ''get'' \<or> searchMethod d = ''post'')
     \<and> (suggestionsMethod d = ''get'' \<or> suggestionsMethod d = ''post'')"

text \<open>A script engine that evaluates nothing, and a sample configuration, for the
  examples.\<close>

definition noScript :: "unit QScriptEngine" where
  "noScript = \<lparr> canEvaluate = (\<lambda>_. False), evaluate = (\<lambda>_. ()),
                 property = (\<lambda>_ _. ()), isArray = (\<lambda>_. False), toSequence = (\<lambda>_. []) \<rparr>"

definition sampleEnv :: environment where
  "sampleEnv = \<lparr> localeName = ''en_US'', applicationName = ''browser'' \<rparr>"

section \<open>Documents, specifications and examples\<close>

text \<open>Everything of the engine but the pointer to the pending reply.\<close>

definition config :: "OpenSearchEngine \<Rightarrow> OpenSearchEngine" where
  "config d = d\<lparr> suggestionsReply := None \<rparr>"




definition sampleEngine :: OpenSearchEngine where
  "sampleEngine =
     newEngine\<lparr> name := ''Example'',
                searchUrlTemplate := ''http://example.com/search?q={searchTerms}'',
                searchParameters := [(''a'', ''{searchTerms}''), (''n'', ''{count}'')],
                suggestionsUrlTemplate := ''http://example.com/suggest'',
                suggestionsParameters := [(''q'', ''{searchTerms}''), (''x'', ''a b&c'')],
                suggestionsMethod := ''post'',
                networkAccessManager := True,
                delegate := True \<rparr>"

text \<open>The pointer to the pending reply, if set, is one of the manager's replies.\<close>

definition pendingValid :: "world \<Rightarrow> bool" where
  "pendingValid w =
     (case suggestionsReply (engine w) of None \<Rightarrow> True | Some i \<Rightarrow> i < length (replies w))"

definition sampleWorld :: world where
  "sampleWorld = newWorld (sampleEngine\<lparr> searchMethod := ''post'' \<rparr>)"

text \<open>What the specification says a response body yields: the suggestion list, or
  nothing.\<close>

definition spec_suggestions :: "'v QScriptEngine \<Rightarrow> string \<Rightarrow> string list option" where
  "spec_suggestions js b =
     (let t = trimmed b
      in if t = [] then None
         else if \<not> (startsWith t (CHR ''['') \<and> endsWith t (CHR '']'')) then None
         else if canEvaluate js t \<and> isArray js (property js (evaluate js t) 1)
         then Some (toSequence js (property js (evaluate js t) 1))
         else None)"




text \<open>A well-formed piece of a document, and the tokens the stream reader delivers for
  it: an empty element is a start token directly followed by an end token.\<close>

datatype node =
    Element string string Attributes "node list"
  | Text string
  | CommentNode

fun tokens :: "node \<Rightarrow> TokenType list" where
  "tokens (Element n u a cs) = StartElement n u a # concat (map tokens cs) @ [EndElement n u]"
| "tokens (Text t) = [Characters t]"
| "tokens CommentNode = [Comment]"

definition lastToken :: "node \<Rightarrow> TokenType" where
  "lastToken c = last (tokens c)"

text \<open>Skipping inside the loop: a node in front of the reader is consumed whole.\<close>

definition skipsOver :: "node \<Rightarrow> bool" where
  "skipsOver c \<longleftrightarrow>
     (\<forall>r rest. \<not> atEnd r \<and> device r = tokens c @ rest
        \<longrightarrow> skipSubtree r = skipSubtree (r\<lparr> token := lastToken c, device := rest \<rparr>))"

text \<open>What the reader is meant to take from a document whose pieces are well formed for
  it: the text of an element, the parameters of a \<open>Url\<close> element, and the change each
  child of the root makes to the engine.\<close>

fun textOnly :: "node \<Rightarrow> bool" where
  "textOnly (Element n u a cs) = False"
| "textOnly (Text t) = True"
| "textOnly CommentNode = True"

fun nodeText :: "node \<Rightarrow> string" where
  "nodeText (Element n u a cs) = []"
| "nodeText (Text t) = t"
| "nodeText CommentNode = []"

definition elementText :: "node list \<Rightarrow> string" where
  "elementText cs = concat (map nodeText cs)"

fun urlChildOk :: "node \<Rightarrow> bool" where
  "urlChildOk (Element n u a cs) =
     (if n = ''Param'' \<or> n = ''Parameter''
      then attrValue a ''name'' \<noteq> [] \<and> attrValue a ''value'' \<noteq> [] \<and> cs = []
      else True)"
| "urlChildOk (Text t) = True"
| "urlChildOk CommentNode = True"

fun paramOf :: "node \<Rightarrow> Parameters" where
  "paramOf (Element n u a cs) =
     (if n = ''Param'' \<or> n = ''Parameter''
      then [(attrValue a ''name'', attrValue a ''value'')]
      else [])"
| "paramOf (Text t) = []"
| "paramOf CommentNode = []"

definition paramsOf :: "node list \<Rightarrow> Parameters" where
  "paramsOf cs = concat (map paramOf cs)"

definition urlType :: "Attributes \<Rightarrow> string" where
  "urlType a =
     (if attrValue a ''type'' = [] \<or> attrValue a ''type'' = ''application/xhtml+xml''
      then ''text/html'' else attrValue a ''type'')"

definition applyUrl :: "Attributes \<Rightarrow> node list \<Rightarrow> OpenSearchEngine \<Rightarrow> OpenSearchEngine" where
  "applyUrl a cs e =
     (if attrValue a ''template'' = [] then e
      else if urlType a = ''application/x-suggestions+json''
      then (if suggestionsUrlTemplate e \<noteq> [] then e
            else setSuggestionsMethod (attrValue a ''method'')
                   (setSuggestionsParameters (paramsOf cs)
                     (setSuggestionsUrlTemplate (attrValue a ''template'') e)))
      else if urlType a = ''text/html''
      then (if searchUrlTemplate e \<noteq> [] then e
            else setSearchMethod (attrValue a ''method'')
                   (setSearchParameters (paramsOf cs)
                     (setSearchUrlTemplate (attrValue a ''template'') e)))
      else e)"

fun applyChild :: "node \<Rightarrow> OpenSearchEngine \<Rightarrow> OpenSearchEngine" where
  "applyChild (Element n u a cs) e =
     (if n = ''ShortName'' then setName (elementText cs) e
      else if n = ''Description'' then setDescription (elementText cs) e
      else if n = ''Url'' then applyUrl a cs e
      else if n = ''Image'' then setImageUrl (elementText cs) e
      else if n = ''Tags'' then setTags (split (CHR '' '') (elementText cs)) e
      else e)"
| "applyChild (Text t) e = e"
| "applyChild CommentNode e = e"

fun childOk :: "node \<Rightarrow> bool" where
  "childOk (Element n u a cs) =
     (if n = ''ShortName'' \<or> n = ''Description'' \<or> n = ''Image'' \<or> n = ''Tags''
      then list_all textOnly cs
      else if n = ''Url'' then list_all urlChildOk cs
      else True)"
| "childOk (Text t) = True"
| "childOk CommentNode = True"

fun applyChildren :: "node list \<Rightarrow> OpenSearchEngine \<Rightarrow> OpenSearchEngine" where
  "applyChildren [] e = e"
| "applyChildren (c # cs) e = applyChildren cs (applyChild c e)"

definition ns11 :: string where
  "ns11 = ''http://a9.com/-/spec/opensearch/1.1/''"

text \<open>The document
  \<^verbatim>\<open><OpenSearchDescription xmlns="http://a9.com/-/spec/opensearch/1.1/">\<close>
  \<^verbatim>\<open><Url type="text/html" template="http://example.com/"><Param name="a"/>\<close>
  \<^verbatim>\<open><Param name="b" value="c"/></Url><ShortName>Example</ShortName>\<close>
  \<^verbatim>\<open></OpenSearchDescription>\<close>.\<close>

definition paramWithoutValue :: "TokenType list" where
  "paramWithoutValue =
     [StartDocument,
      StartElement ''OpenSearchDescription'' ns11 [],
      StartElement ''Url'' ns11 [(''type'', ''text/html''), (''template'', ''http://example.com/'')],
      StartElement ''Param'' ns11 [(''name'', ''a'')],
      EndElement ''Param'' ns11,
      StartElement ''Param'' ns11 [(''name'', ''b''), (''value'', ''c'')],
      EndElement ''Param'' ns11,
      EndElement ''Url'' ns11,
      StartElement ''ShortName'' ns11 [],
      Characters ''Example'',
      EndElement ''ShortName'' ns11,
      EndElement ''OpenSearchDescription'' ns11,
      EndDocument]"

text \<open>Two \<open>Url\<close> elements of type \<open>text/html\<close>, followed by a \<open>ShortName\<close>:
  \<^verbatim>\<open><Url type="text/html" template="http://a.example/" method="post"><Param name="q" value="1"/></Url>\<close>
  \<^verbatim>\<open><Url template="http://b.example/"><Param name="r" value="2"/></Url>\<close>
  \<^verbatim>\<open><ShortName>Example</ShortName>\<close>.\<close>

definition twoSearchUrls :: "node list" where
  "twoSearchUrls =
     [Element ''Url'' ns11
        [(''type'', ''text/html''), (''template'', ''http://a.example/''), (''method'', ''post'')]
        [Element ''Param'' ns11 [(''name'', ''q''), (''value'', ''1'')] []],
      Element ''Url'' ns11 [(''template'', ''http://b.example/'')]
        [Element ''Param'' ns11 [(''name'', ''r''), (''value'', ''2'')] []],
      Element ''ShortName'' ns11 [] [Text ''Example'']]"

text \<open>Two \<open>ShortName\<close> elements: \<^verbatim>\<open><ShortName>First</ShortName><ShortName>Second</ShortName>\<close>.\<close>

definition twoNames :: "node list" where
  "twoNames =
     [Element ''ShortName'' ns11 [] [Text ''First''],
      Element ''ShortName'' ns11 [] [Text ''Second'']]"

definition document :: "node list \<Rightarrow> TokenType list" where
  "document cs =
     StartDocument # tokens (Element ''OpenSearchDescription'' ns11 [] cs) @ [EndDocument]"

fun isShortName :: "node \<Rightarrow> bool" where
  "isShortName (Element n u a cs) = (n = ''ShortName'')"
| "isShortName (Text t) = False"
| "isShortName CommentNode = False"

text \<open>The state of the reader in the document of \<open>twoSearchUrls\<close> when the first \<open>Url\<close>
  element has been read.\<close>

definition afterFirstUrl :: "QXmlStreamReader \<times> OpenSearchEngine" where
  "afterFirstUrl =
     (\<lparr> token = EndElement ''Url'' ns11,
        device = tokens (twoSearchUrls ! 1) @ tokens (twoSearchUrls ! 2)
                   @ [EndElement ''OpenSearchDescription'' ns11, EndDocument],
        error = None \<rparr>,
      newEngine\<lparr> searchUrlTemplate := ''http://a.example/'',
                 searchParameters := [(''q'', ''1'')],
                 searchMethod := ''post'' \<rparr>)"

text \<open>The connections the engine keeps: of the replies that have not finished exactly
  the pending one is connected to the slot, and the pending reply exists and has not
  finished.\<close>

definition wired :: "world \<Rightarrow> bool" where
  "wired w \<longleftrightarrow>
     list_all (\<lambda>k. finished (replies w ! k)
                   \<or> connected (replies w ! k) = (suggestionsReply (engine w) = Some k))
       [0 ..< length (replies w)]
     \<and> (case suggestionsReply (engine w) of
          None \<Rightarrow> True
        | Some k \<Rightarrow> k < length (replies w) \<and> \<not> finished (replies w ! k))"



definition notification :: "'v QScriptEngine \<Rightarrow> string option \<Rightarrow> string list list" where
  "notification js b =
     (case b of
        None \<Rightarrow> []
      | Some x \<Rightarrow> (case spec_suggestions js x of None \<Rightarrow> [] | Some l \<Rightarrow> [l]))"

text \<open>A placeholder is a name between braces; the names \<open>parseTemplate\<close> replaces by
  literal search are listed.\<close>

definition braceFree :: "string \<Rightarrow> bool" where
  "braceFree s \<longleftrightarrow> CHR ''{'' \<notin> set s \<and> CHR ''}'' \<notin> set s"

definition placeholder :: "string \<Rightarrow> string" where
  "placeholder w = CHR ''{'' # w @ ''}''"

definition literalNames :: "string list" where
  "literalNames =
     [''count'', ''startIndex'', ''startPage'', ''language'', ''inputEncoding'',
      ''outputEncoding'', ''searchTerms'']"

definition unlisted :: "string \<Rightarrow> bool" where
  "unlisted w \<longleftrightarrow> braceFree w \<and> w \<notin> set literalNames \<and> sourceCapture w = None"

text \<open>The expansion as the specification words it: a list of substitutions, applied one
  after the other, each to the whole text.\<close>

datatype substitution = Literal string string | SourceToken string

fun substitute :: "substitution \<Rightarrow> string \<Rightarrow> string" where
  "substitute (Literal b a) s = replace b a s"
| "substitute (SourceToken app) s = replaceSource app s"

definition spec_steps :: "environment \<Rightarrow> string \<Rightarrow> substitution list" where
  "spec_steps env term =
     [Literal ''{count}'' ''20'',
      Literal ''{startIndex}'' ''0'',
      Literal ''{startPage}'' ''0'',
      Literal ''{language}'' (replaceChar (CHR ''_'') (CHR ''-'') (localeName env)),
      Literal ''{inputEncoding}'' ''UTF-8'',
      Literal ''{outputEncoding}'' ''UTF-8'',
      SourceToken (applicationName env),
      Literal ''{searchTerms}'' term]"

definition spec_expand :: "environment \<Rightarrow> string \<Rightarrow> string \<Rightarrow> string" where
  "spec_expand env term s = foldl (\<lambda>r st. substitute st r) s (spec_steps env term)"

section \<open>Properties\<close>

subsection \<open>The request methods (C7)\<close>

lemma dom_requestMethods: "m \<in> dom requestMethods \<longleftrightarrow> m = ''get'' \<or> m = ''post''"
  by (auto simp: requestMethods_def)

lemma setSearchMethod_eq:
  "setSearchMethod m d =
     (if toLower m = ''get'' \<or> toLower m = ''post'' then d\<lparr> searchMethod := toLower m \<rparr> else d)"
  by (simp add: setSearchMethod_def Let_def dom_requestMethods)

lemma setSuggestionsMethod_eq:
  "setSuggestionsMethod m d =
     (if toLower m = ''get'' \<or> toLower m = ''post'' then d\<lparr> suggestionsMethod := toLower m \<rparr> else d)"
  by (simp add: setSuggestionsMethod_def Let_def dom_requestMethods)

lemma methodsOk_setSearchMethod: "methodsOk d \<Longrightarrow> methodsOk (setSearchMethod m d)"
  by (auto simp: methodsOk_def setSearchMethod_eq)

lemma methodsOk_setSuggestionsMethod: "methodsOk d \<Longrightarrow> methodsOk (setSuggestionsMethod m d)"
  by (auto simp: methodsOk_def setSuggestionsMethod_eq)

lemma methodsOk_config: "methodsOk d \<longleftrightarrow> methodsOk (config d)"
  by (simp add: methodsOk_def config_def)

lemma engine_updateReply [simp]: "engine (updateReply i f w) = engine w"
  by (simp add: updateReply_def)

lemma config_suggestionsObtained:
  "suggestionsObtained js w = Inr w' \<Longrightarrow> config (engine w') = config (engine w)"
  by (auto simp: suggestionsObtained_def Let_def config_def split: option.splits if_splits)

lemma config_emitFinished:
  "emitFinished js i w = Inr w' \<Longrightarrow> config (engine w') = config (engine w)"
  by (auto simp: emitFinished_def dest: config_suggestionsObtained split: if_splits)

lemma config_abort:
  "abort js i w = Inr w' \<Longrightarrow> config (engine w') = config (engine w)"
  by (auto simp: abort_def dest!: config_emitFinished split: if_splits)

lemma config_cancelPending:
  "cancelPending js w = Inr w' \<Longrightarrow> config (engine w') = config (engine w)"
  by (auto simp: cancelPending_def config_def dest!: config_abort
           split: option.splits if_splits sum.splits)

lemma config_sendRequest: "config (engine (sendRequest env t w)) = config (engine w)"
  by (simp add: sendRequest_def Let_def config_def)

lemma config_requestSuggestions:
  "requestSuggestions js env t w = Inr w' \<Longrightarrow> config (engine w') = config (engine w)"
  by (auto simp: requestSuggestions_def config_sendRequest dest!: config_cancelPending
           split: if_splits sum.splits)

lemma config_replyFinished:
  "replyFinished js i b w = Inr w' \<Longrightarrow> config (engine w') = config (engine w)"
  by (auto simp: replyFinished_def dest!: config_emitFinished split: if_splits)

lemma config_requestSearchResults:
  "config (engine (requestSearchResults env t w)) = config (engine w)"
  by (simp add: requestSearchResults_def Let_def)

lemma methodsOk_step:
  assumes "step js env ev w = Inr w'" and "methodsOk (engine w)"
  shows "methodsOk (engine w')"
proof (cases ev)
  case (SetSearchMethod s)
  then show ?thesis using assms by (auto simp: onEngine_def methodsOk_setSearchMethod)
next
  case (SetSuggestionsMethod s)
  then show ?thesis using assms by (auto simp: onEngine_def methodsOk_setSuggestionsMethod)
next
  case (RequestSuggestions t)
  then have "config (engine w') = config (engine w)"
    using assms(1) by (auto dest: config_requestSuggestions)
  then show ?thesis using assms(2) methodsOk_config by metis
next
  case (RequestSearchResults t)
  then have "config (engine w') = config (engine w)"
    using assms(1) by (auto simp: config_requestSearchResults)
  then show ?thesis using assms(2) methodsOk_config by metis
next
  case (ReplyFinished i b)
  then have "config (engine w') = config (engine w)"
    using assms(1) by (auto dest: config_replyFinished)
  then show ?thesis using assms(2) methodsOk_config by metis
qed (use assms in \<open>auto simp: onEngine_def methodsOk_def setName_def setDescription_def
      setSearchUrlTemplate_def setSuggestionsUrlTemplate_def setSearchParameters_def
      setSuggestionsParameters_def setImageUrl_def setTags_def setNetworkAccessManager_def
      setDelegate_def\<close>)

lemma methodsOk_run:
  "run js env evs w = Inr w' \<Longrightarrow> methodsOk (engine w) \<Longrightarrow> methodsOk (engine w')"
proof (induction evs arbitrary: w)
  case Nil
  then show ?case by simp
next
  case (Cons ev evs)
  then show ?case
    by (auto split: sum.splits dest: methodsOk_step)
qed

lemma methodsOk_newEngine: "methodsOk newEngine"
  by (simp add: methodsOk_def newEngine_def)

lemma readDocument_loop_preserves:
  assumes n: "\<And>r e. P e \<Longrightarrow> P (snd (readName (r, e)))"
    and d: "\<And>r e. P e \<Longrightarrow> P (snd (readDescription (r, e)))"
    and u: "\<And>r e. P e \<Longrightarrow> P (snd (readUrl (r, e)))"
    and i: "\<And>r e. P e \<Longrightarrow> P (snd (readImage (r, e)))"
    and t: "\<And>r e. P e \<Longrightarrow> P (snd (readTags (r, e)))"
  shows "P e \<Longrightarrow> P (snd (readDocument_loop (r, e)))"
proof (induction "(r, e)" arbitrary: r e rule: readDocument_loop.induct)
  case (1 r e)
  note IH = "1.hyps" and Pe = "1.prems"
  let ?r1 = "readNext r"
  show ?case
  proof (cases "atEnd r \<or> isEndElement ?r1")
    case True
    then show ?thesis using Pe by (subst readDocument_loop.simps) (auto simp: Let_def)
  next
    case False
    then have ne: "\<not> atEnd r" and nend: "\<not> isEndElement ?r1" by auto
    show ?thesis
    proof (cases "isStartElement ?r1")
      case False
      then show ?thesis
        using IH(1)[OF ne refl nend _ Pe] ne nend
        by (subst readDocument_loop.simps) (simp add: Let_def)
    next
      case st: True
      consider (a) "elementName ?r1 = ''ShortName''"
        | (b) "elementName ?r1 \<noteq> ''ShortName''" "elementName ?r1 = ''Description''"
        | (c) "elementName ?r1 \<noteq> ''ShortName''" "elementName ?r1 \<noteq> ''Description''"
              "elementName ?r1 = ''Url''"
        | (d) "elementName ?r1 \<noteq> ''ShortName''" "elementName ?r1 \<noteq> ''Description''"
              "elementName ?r1 \<noteq> ''Url''" "elementName ?r1 = ''Image''"
        | (e) "elementName ?r1 \<noteq> ''ShortName''" "elementName ?r1 \<noteq> ''Description''"
              "elementName ?r1 \<noteq> ''Url''" "elementName ?r1 \<noteq> ''Image''"
              "elementName ?r1 = ''Tags''"
        | (f) "elementName ?r1 \<noteq> ''ShortName''" "elementName ?r1 \<noteq> ''Description''"
              "elementName ?r1 \<noteq> ''Url''" "elementName ?r1 \<noteq> ''Image''"
              "elementName ?r1 \<noteq> ''Tags''"
        by blast
      then show ?thesis
      proof cases
        case a
        obtain r2 e2 where h: "readName (?r1, e) = (r2, e2)" by (cases "readName (?r1, e)")
        have "P e2" using n[OF Pe, of ?r1] h by simp
        then have "P (snd (readDocument_loop (r2, e2)))"
          using IH(2)[OF ne refl nend _ a h] st by simp
        then show ?thesis using ne nend st a h
          by (subst readDocument_loop.simps) (simp add: Let_def)
      next
        case b
        obtain r2 e2 where h: "readDescription (?r1, e) = (r2, e2)"
          by (cases "readDescription (?r1, e)")
        have "P e2" using d[OF Pe, of ?r1] h by simp
        then have "P (snd (readDocument_loop (r2, e2)))"
          using IH(3)[OF ne refl nend _ b h] st by simp
        then show ?thesis using ne nend st b h
          by (subst readDocument_loop.simps) (simp add: Let_def)
      next
        case c
        obtain r2 e2 where h: "readUrl (?r1, e) = (r2, e2)" by (cases "readUrl (?r1, e)")
        have "P e2" using u[OF Pe, of ?r1] h by simp
        then have "P (snd (readDocument_loop (r2, e2)))"
          using IH(4)[OF ne refl nend _ c h] st by simp
        then show ?thesis using ne nend st c h
          by (subst readDocument_loop.simps) (simp add: Let_def)
      next
        case d
        obtain r2 e2 where h: "readImage (?r1, e) = (r2, e2)" by (cases "readImage (?r1, e)")
        have "P e2" using i[OF Pe, of ?r1] h by simp
        then have "P (snd (readDocument_loop (r2, e2)))"
          using IH(5)[OF ne refl nend _ d h] st by simp
        then show ?thesis using ne nend st d h
          by (subst readDocument_loop.simps) (simp add: Let_def)
      next
        case e
        obtain r2 e2 where h: "readTags (?r1, e) = (r2, e2)" by (cases "readTags (?r1, e)")
        have "P e2" using t[OF Pe, of ?r1] h by simp
        then have "P (snd (readDocument_loop (r2, e2)))"
          using IH(6)[OF ne refl nend _ e h] st by simp
        then show ?thesis using ne nend st e h
          by (subst readDocument_loop.simps) (simp add: Let_def)
      next
        case f
        have "P (snd (readDocument_loop (skipSubtree ?r1, e)))"
          using IH(7)[OF ne refl nend _ f Pe] st by simp
        then show ?thesis using ne nend st f
          by (subst readDocument_loop.simps) (simp add: Let_def)
      qed
    qed
  qed
qed

lemma methodsOk_readUrl: "methodsOk e \<Longrightarrow> methodsOk (snd (readUrl (r, e)))"
  by (auto simp: readUrl_def Let_def setSearchMethod_eq setSuggestionsMethod_eq methodsOk_def
        setSearchParameters_def setSuggestionsParameters_def setSearchUrlTemplate_def
        setSuggestionsUrlTemplate_def split: prod.splits)

lemma methodsOk_readDocument_loop:
  "methodsOk e \<Longrightarrow> methodsOk (snd (readDocument_loop (r, e)))"
proof (rule readDocument_loop_preserves)
  show "\<And>r e. methodsOk e \<Longrightarrow> methodsOk (snd (readUrl (r, e)))" by (rule methodsOk_readUrl)
qed (auto simp: methodsOk_def readName_def readDescription_def readImage_def readTags_def
       setName_def setDescription_def setImageUrl_def setTags_def split: prod.splits)

lemma methodsOk_read: "read dev = (m, r) \<Longrightarrow> \<exists>e. m = Some e \<and> methodsOk e"
  using methodsOk_readDocument_loop[OF methodsOk_newEngine]
  by (auto simp: read_def readDocument_def Let_def methodsOk_newEngine split: prod.splits if_splits)
    (metis snd_conv)+

text \<open>
  Claim C7. The method of each URL template is always \<open>get\<close> or \<open>post\<close>. A new engine has
  \<open>get\<close> for both. \<open>setSearchMethod\<close> and \<open>setSuggestionsMethod\<close> put their argument in lower
  case and store it only if it is \<open>get\<close> or \<open>post\<close>; otherwise the engine is returned as it
  was, and nothing else is reported. Every sequence of calls on the engine and of reply
  completions keeps both methods in the two values, and so does the engine that \<open>read\<close>
  returns.
\<close>

theorem method_is_always_get_or_post:
  "searchMethod newEngine = ''get'' \<and> suggestionsMethod newEngine = ''get''
   \<and> setSearchMethod m d =
        (if toLower m = ''get'' \<or> toLower m = ''post''
         then d\<lparr> searchMethod := toLower m \<rparr> else d)
   \<and> setSuggestionsMethod m d =
        (if toLower m = ''get'' \<or> toLower m = ''post''
         then d\<lparr> suggestionsMethod := toLower m \<rparr> else d)
   \<and> (methodsOk (engine w) \<and> run js env evs w = Inr w' \<longrightarrow> methodsOk (engine w'))
   \<and> (\<exists>e. fst (read dev) = Some e \<and> methodsOk e)"
proof -
  have a: "searchMethod newEngine = ''get'' \<and> suggestionsMethod newEngine = ''get''"
    by (simp add: newEngine_def)
  have b: "methodsOk (engine w) \<and> run js env evs w = Inr w' \<longrightarrow> methodsOk (engine w')"
    using methodsOk_run by blast
  have c: "\<exists>e. fst (read dev) = Some e \<and> methodsOk e"
    using methodsOk_read[of dev "fst (read dev)" "snd (read dev)"] by simp
  show ?thesis
    using a b c setSearchMethod_eq[of m d] setSuggestionsMethod_eq[of m d] by blast
qed

theorem method_is_always_get_or_post_witness:
  "methodsOk (engine (newWorld newEngine))
   \<and> (\<exists>w'. run noScript sampleEnv
               [SetSearchMethod ''POST'', SetSuggestionsMethod ''put'', SetSearchMethod ''Delete'']
               (newWorld newEngine) = Inr w'
            \<and> methodsOk (engine w')
            \<and> searchMethod (engine w') = ''post'' \<and> suggestionsMethod (engine w') = ''get'')"
proof -
  let ?evs = "[SetSearchMethod ''POST'', SetSuggestionsMethod ''put'', SetSearchMethod ''Delete'']"
  have ok: "methodsOk (engine (newWorld newEngine))"
    by (simp add: newWorld_def methodsOk_newEngine)
  have r: "run noScript sampleEnv ?evs (newWorld newEngine)
             = Inr (newWorld (newEngine\<lparr> searchMethod := ''post'' \<rparr>))"
    by (simp add: newWorld_def onEngine_def setSearchMethod_eq setSuggestionsMethod_eq
          toLower_def toLower_char_def)
  from method_is_always_get_or_post[where w = "newWorld newEngine" and js = noScript
        and env = sampleEnv and evs = ?evs
        and w' = "newWorld (newEngine\<lparr> searchMethod := ''post'' \<rparr>)"] ok r
  have "methodsOk (engine (newWorld (newEngine\<lparr> searchMethod := ''post'' \<rparr>)))"
    by blast
  then show ?thesis using ok r by (simp add: newWorld_def newEngine_def)
qed

subsection \<open>The URLs (C1)\<close>

lemma addParameters_eq:
  "addParameters env t ps u =
     u\<lparr> queryItems := queryItems u @ map (\<lambda>i. (fst i, parseTemplate env t (snd i))) ps \<rparr>"
  by (induction ps arbitrary: u) (simp_all add: addQueryItem_def)

text \<open>
  Claim C1. \<open>searchUrl\<close> and \<open>suggestionsUrl\<close> return the empty URL when their template is
  empty. Otherwise the URL is made from the expanded template, and when the method is
  \<open>get\<close> every stored parameter is added as a query item, in the stored order, its value
  expanded for the same search term; when the method is \<open>post\<close> no query item is added.
  (The method is \<open>get\<close> or \<open>post\<close> in every engine, by \<open>method_is_always_get_or_post\<close>.)
\<close>

theorem url_of_template_and_parameters:
  assumes "methodsOk d"
  shows "searchUrl env d t =
           (if searchUrlTemplate d = [] then emptyUrl
            else \<lparr> encoded = parseTemplate env t (searchUrlTemplate d),
                   queryItems =
                     (if searchMethod d = ''get''
                      then map (\<lambda>i. (fst i, parseTemplate env t (snd i))) (searchParameters d)
                      else []) \<rparr>)
         \<and> suggestionsUrl env d t =
           (if suggestionsUrlTemplate d = [] then emptyUrl
            else \<lparr> encoded = parseTemplate env t (suggestionsUrlTemplate d),
                   queryItems =
                     (if suggestionsMethod d = ''get''
                      then map (\<lambda>i. (fst i, parseTemplate env t (snd i))) (suggestionsParameters d)
                      else []) \<rparr>)"
proof -
  have s: "searchMethod d \<noteq> ''post'' \<longleftrightarrow> searchMethod d = ''get''"
    using assms by (auto simp: methodsOk_def)
  have g: "suggestionsMethod d \<noteq> ''post'' \<longleftrightarrow> suggestionsMethod d = ''get''"
    using assms by (auto simp: methodsOk_def)
  show ?thesis
    unfolding searchUrl_def suggestionsUrl_def Let_def s g
    by (simp add: addParameters_eq fromEncoded_def)
qed

lemma parseTemplate_sample1:
  "parseTemplate sampleEnv ''a b'' ''http://example.com/search?q={searchTerms}''
     = ''http://example.com/search?q=a%20b''"
  by code_simp

lemma parseTemplate_sample2: "parseTemplate sampleEnv ''a b'' ''{searchTerms}'' = ''a%20b''"
  by code_simp

lemma parseTemplate_sample3: "parseTemplate sampleEnv ''a b'' ''{count}'' = ''20''"
  by code_simp

lemma parseTemplate_sample4:
  "parseTemplate sampleEnv ''a b'' ''http://example.com/suggest'' = ''http://example.com/suggest''"
  by code_simp

lemma methodsOk_sampleEngine: "methodsOk sampleEngine"
  by (simp add: methodsOk_def sampleEngine_def newEngine_def)

theorem url_of_template_and_parameters_witness:
  "methodsOk sampleEngine
   \<and> searchUrl sampleEnv sampleEngine ''a b'' =
       \<lparr> encoded = ''http://example.com/search?q=a%20b'',
         queryItems = [(''a'', ''a%20b''), (''n'', ''20'')] \<rparr>
   \<and> suggestionsUrl sampleEnv sampleEngine ''a b'' =
       \<lparr> encoded = ''http://example.com/suggest'', queryItems = [] \<rparr>
   \<and> searchUrl sampleEnv newEngine ''a b'' = emptyUrl"
proof -
  have n: "methodsOk newEngine" by (rule methodsOk_newEngine)
  show ?thesis
    using url_of_template_and_parameters[OF methodsOk_sampleEngine, of sampleEnv "''a b''"]
      url_of_template_and_parameters[OF n, of sampleEnv "''a b''"]
      methodsOk_sampleEngine
    by (simp add: sampleEngine_def newEngine_def parseTemplate_sample1 parseTemplate_sample2
          parseTemplate_sample3 parseTemplate_sample4)
qed

subsection \<open>The body of a POST request (C10)\<close>

lemma appendPairs_eq:
  "appendPairs ps acc = acc @ map (\<lambda>i. fst i @ ''='' @ snd i) ps"
  by (induction ps arbitrary: acc) simp_all

lemma replies_updateReply [simp]: "length (replies (updateReply i f w)) = length (replies w)"
  by (simp add: updateReply_def)

lemma cancelPending_ok:
  assumes "pendingValid w"
  shows "\<exists>w1. cancelPending js w = Inr w1
           \<and> engine w1 = (engine w)\<lparr> suggestionsReply := None \<rparr>
           \<and> length (replies w1) = length (replies w)
           \<and> emitted w1 = emitted w \<and> performed w1 = performed w"
proof (cases "suggestionsReply (engine w)")
  case None
  then show ?thesis by (simp add: cancelPending_def)
next
  case (Some i)
  then have i: "i < length (replies w)" using assms by (simp add: pendingValid_def)
  let ?w0 = "updateReply i (\<lambda>p. p\<lparr> connected := False \<rparr>) w"
  have "\<exists>w'. abort js i ?w0 = Inr w' \<and> engine w' = engine w
          \<and> length (replies w') = length (replies w)
          \<and> emitted w' = emitted w \<and> performed w' = performed w"
    using i by (simp add: abort_def emitFinished_def updateReply_def)
  then show ?thesis
    using Some i by (auto simp: cancelPending_def updateReply_def)
qed

text \<open>
  Claim C10. When the suggestions method is \<open>post\<close> and the search term is not empty, the
  request that \<open>requestSuggestions\<close> hands to the manager is a POST whose body is the stored
  parameter pairs, each written \<open>key=value\<close>, joined with \<open>&\<close>: the stored texts as they
  are, with no placeholder replaced and no percent-encoding, so the body does not depend
  on the search term. The same holds for the body \<open>requestSearchResults\<close> hands to the
  delegate when the search method is \<open>post\<close>. In both cases the URL carries no query item.
\<close>

theorem post_body_is_the_stored_pairs:
  "(suggestionsMethod (engine w) = ''post'' \<and> t \<noteq> [] \<and> providesSuggestions (engine w)
      \<and> networkAccessManager (engine w) \<and> pendingValid w
    \<longrightarrow> (\<exists>w'. requestSuggestions js env t w = Inr w'
           \<and> suggestionsReply (engine w') = Some (length (replies w))
           \<and> length (replies w') = Suc (length (replies w))
           \<and> operation (replies w' ! length (replies w)) = PostOperation
           \<and> data (replies w' ! length (replies w)) =
               join ''&'' (map (\<lambda>i. fst i @ ''='' @ snd i) (suggestionsParameters (engine w)))
           \<and> url (replies w' ! length (replies w)) =
               \<lparr> encoded = parseTemplate env t (suggestionsUrlTemplate (engine w)),
                 queryItems = [] \<rparr>))
   \<and> (searchMethod (engine w) = ''post'' \<and> t \<noteq> [] \<and> delegate (engine w)
    \<longrightarrow> performed (requestSearchResults env t w) =
          performed w @
            [(searchUrl env (engine w) t, PostOperation,
              join ''&'' (map (\<lambda>i. fst i @ ''='' @ snd i) (searchParameters (engine w))))]
        \<and> queryItems (searchUrl env (engine w) t) = [])"
proof -
  have sugg: "\<exists>w'. requestSuggestions js env t w = Inr w'
           \<and> suggestionsReply (engine w') = Some (length (replies w))
           \<and> length (replies w') = Suc (length (replies w))
           \<and> operation (replies w' ! length (replies w)) = PostOperation
           \<and> data (replies w' ! length (replies w)) =
               join ''&'' (map (\<lambda>i. fst i @ ''='' @ snd i) (suggestionsParameters (engine w)))
           \<and> url (replies w' ! length (replies w)) =
               \<lparr> encoded = parseTemplate env t (suggestionsUrlTemplate (engine w)),
                 queryItems = [] \<rparr>"
    if h: "suggestionsMethod (engine w) = ''post''" "t \<noteq> []" "providesSuggestions (engine w)"
      "networkAccessManager (engine w)" "pendingValid w"
  proof -
    obtain w1 where c: "cancelPending js w = Inr w1"
      and e: "engine w1 = (engine w)\<lparr> suggestionsReply := None \<rparr>"
      and l: "length (replies w1) = length (replies w)"
      using cancelPending_ok[OF h(5), of js] by blast
    have r: "requestSuggestions js env t w = Inr (sendRequest env t w1)"
      using h c by (simp add: requestSuggestions_def)
    have u: "suggestionsUrl env (engine w1) t =
               \<lparr> encoded = parseTemplate env t (suggestionsUrlTemplate (engine w)),
                 queryItems = [] \<rparr>"
      using h e by (simp add: suggestionsUrl_def providesSuggestions_def fromEncoded_def)
    show ?thesis
      unfolding r using h e l u
      by (simp add: sendRequest_def Let_def newReply_def appendPairs_eq nth_append)
  qed
  have srch: "performed (requestSearchResults env t w) =
          performed w @
            [(searchUrl env (engine w) t, PostOperation,
              join ''&'' (map (\<lambda>i. fst i @ ''='' @ snd i) (searchParameters (engine w))))]
        \<and> queryItems (searchUrl env (engine w) t) = []"
    if h: "searchMethod (engine w) = ''post''" "t \<noteq> []" "delegate (engine w)"
    using h by (simp add: requestSearchResults_def Let_def requestMethods_def appendPairs_eq
                  searchUrl_def emptyUrl_def fromEncoded_def)
  show ?thesis using sugg srch by blast
qed

theorem post_body_is_the_stored_pairs_witness:
  "suggestionsMethod (engine sampleWorld) = ''post'' \<and> ''cats'' \<noteq> []
   \<and> providesSuggestions (engine sampleWorld) \<and> networkAccessManager (engine sampleWorld)
   \<and> pendingValid sampleWorld
   \<and> searchMethod (engine sampleWorld) = ''post'' \<and> delegate (engine sampleWorld)
   \<and> (\<exists>w'. requestSuggestions noScript sampleEnv ''cats'' sampleWorld = Inr w'
          \<and> operation (replies w' ! 0) = PostOperation
          \<and> data (replies w' ! 0) = ''q={searchTerms}&x=a b&c'')
   \<and> performed (requestSearchResults sampleEnv ''cats'' sampleWorld) =
        [(\<lparr> encoded = ''http://example.com/search?q=cats'', queryItems = [] \<rparr>, PostOperation,
          ''a={searchTerms}&n={count}'')]"
proof -
  have h: "suggestionsMethod (engine sampleWorld) = ''post'' \<and> ''cats'' \<noteq> []
      \<and> providesSuggestions (engine sampleWorld) \<and> networkAccessManager (engine sampleWorld)
      \<and> pendingValid sampleWorld"
    by (simp add: sampleWorld_def newWorld_def sampleEngine_def newEngine_def
          providesSuggestions_def pendingValid_def)
  have g: "searchMethod (engine sampleWorld) = ''post'' \<and> ''cats'' \<noteq> []
      \<and> delegate (engine sampleWorld)"
    by (simp add: sampleWorld_def newWorld_def sampleEngine_def newEngine_def)
  have p: "parseTemplate sampleEnv ''cats'' ''http://example.com/search?q={searchTerms}''
             = ''http://example.com/search?q=cats''"
    by code_simp
  have u: "searchUrl sampleEnv (engine sampleWorld) ''cats''
             = \<lparr> encoded = ''http://example.com/search?q=cats'', queryItems = [] \<rparr>"
    by (simp add: searchUrl_def sampleWorld_def newWorld_def sampleEngine_def newEngine_def
          fromEncoded_def p)
  have e: "suggestionsParameters (engine sampleWorld) = [(''q'', ''{searchTerms}''), (''x'', ''a b&c'')]"
    "searchParameters (engine sampleWorld) = [(''a'', ''{searchTerms}''), (''n'', ''{count}'')]"
    "replies sampleWorld = []" "performed sampleWorld = []"
    by (simp_all add: sampleWorld_def newWorld_def sampleEngine_def newEngine_def)
  show ?thesis
    using post_body_is_the_stored_pairs[of sampleWorld "''cats''" noScript sampleEnv] h g
    by (auto simp: e u)
qed

subsection \<open>The response to a suggestions request (C5)\<close>



subsection \<open>The root element (C4)\<close>

lemma skipToStartElement_prefix:
  assumes "\<forall>t \<in> set pre. (\<forall>n u a. t \<noteq> StartElement n u a) \<and> t \<noteq> EndDocument \<and> t \<noteq> Invalid"
    and "\<not> isStartElement r" and "\<not> atEnd r" and "device r = pre @ StartElement n u a # rest"
  shows "skipToStartElement r = r\<lparr> token := StartElement n u a, device := rest \<rparr>"
  using assms
proof (induction pre arbitrary: r)
  case Nil
  then have "readNext r = r\<lparr> token := StartElement n u a, device := rest \<rparr>"
    by (simp add: readNext_def atEnd_def)
  moreover have "isStartElement (r\<lparr> token := StartElement n u a, device := rest \<rparr>)"
    by (simp add: isStartElement_def)
  ultimately show ?case using Nil
    by (subst skipToStartElement.simps, simp, subst skipToStartElement.simps, simp)
next
  case (Cons t pre)
  have t: "(\<forall>n u a. t \<noteq> StartElement n u a)" "t \<noteq> EndDocument" "t \<noteq> Invalid"
    using Cons.prems(1) by auto
  let ?r1 = "r\<lparr> token := t, device := pre @ StartElement n u a # rest \<rparr>"
  have rn: "readNext r = ?r1"
    using Cons.prems t by (simp add: readNext_def atEnd_def)
  have ns: "\<not> isStartElement ?r1" using t by (cases t) (simp_all add: isStartElement_def)
  have ne: "\<not> atEnd ?r1" using t by (simp add: atEnd_def)
  have "skipToStartElement ?r1 = ?r1\<lparr> token := StartElement n u a, device := rest \<rparr>"
    using Cons.IH[of ?r1] Cons.prems(1) ns ne by simp
  then show ?case
    using Cons.prems rn by (subst skipToStartElement.simps) simp
qed

text \<open>
  Claim C4. When the first start element of the document is not \<open>OpenSearchDescription\<close> in
  the namespace \<open>http://a9.com/-/spec/opensearch/1.1/\<close>, \<open>read\<close> raises the error
  "The file is not an OpenSearch 1.1 file." and reads no further: the tokens after that
  start element stay unread. It still returns an engine, the one the constructor makes,
  which is not valid; the failure shows only in the reader's error.
\<close>

theorem wrong_root_is_an_error:
  assumes "\<forall>t \<in> set pre. (\<forall>n u a. t \<noteq> StartElement n u a) \<and> t \<noteq> EndDocument \<and> t \<noteq> Invalid"
    and "n \<noteq> ''OpenSearchDescription'' \<or> u \<noteq> ''http://a9.com/-/spec/opensearch/1.1/''"
  shows "read (pre @ StartElement n u a # rest) =
           (Some newEngine,
            \<lparr> token = Invalid, device = rest,
              error = Some (CustomError ''The file is not an OpenSearch 1.1 file.'') \<rparr>)
         \<and> hasError (snd (read (pre @ StartElement n u a # rest)))
         \<and> \<not> isValid newEngine"
proof -
  let ?r0 = "setDevice (pre @ StartElement n u a # rest) clear"
  have s: "skipToStartElement ?r0 = ?r0\<lparr> token := StartElement n u a, device := rest \<rparr>"
    by (rule skipToStartElement_prefix[OF assms(1)])
       (simp_all add: setDevice_def clear_def isStartElement_def atEnd_def)
  have r: "read (pre @ StartElement n u a # rest) =
           (Some newEngine,
            \<lparr> token = Invalid, device = rest,
              error = Some (CustomError ''The file is not an OpenSearch 1.1 file.'') \<rparr>)"
    unfolding read_def readDocument_def Let_def s
    using assms(2)
    by (auto simp: elementName_def namespaceUri_def raiseError_def setDevice_def clear_def)
  show ?thesis
    unfolding r by (simp add: hasError_def isValid_def newEngine_def)
qed

theorem wrong_root_is_an_error_witness:
  "read [StartDocument, Comment,
         StartElement ''OpenSearchDescription'' ''http://a9.com/-/spec/opensearch/1.0/'' [],
         StartElement ''ShortName'' ''http://a9.com/-/spec/opensearch/1.0/'' [],
         Characters ''Example'',
         EndElement ''ShortName'' ''http://a9.com/-/spec/opensearch/1.0/'',
         EndElement ''OpenSearchDescription'' ''http://a9.com/-/spec/opensearch/1.0/'',
         EndDocument]
     = (Some newEngine,
        \<lparr> token = Invalid,
          device = [StartElement ''ShortName'' ''http://a9.com/-/spec/opensearch/1.0/'' [],
                    Characters ''Example'',
                    EndElement ''ShortName'' ''http://a9.com/-/spec/opensearch/1.0/'',
                    EndElement ''OpenSearchDescription'' ''http://a9.com/-/spec/opensearch/1.0/'',
                    EndDocument],
          error = Some (CustomError ''The file is not an OpenSearch 1.1 file.'') \<rparr>)"
  using wrong_root_is_an_error[of "[StartDocument, Comment]" "''OpenSearchDescription''"
      "''http://a9.com/-/spec/opensearch/1.0/''" "[]"]
  by simp

subsection \<open>Reading well-formed documents\<close>

lemma lastToken_simps [simp]:
  "lastToken (Element n u a cs) = EndElement n u"
  "lastToken (Text t) = Characters t"
  "lastToken CommentNode = Comment"
  by (simp_all add: lastToken_def)

lemma readNext_Cons:
  "token r \<noteq> Invalid \<Longrightarrow> t \<noteq> Invalid \<Longrightarrow> device r = t # ts \<Longrightarrow>
   readNext r = r\<lparr> token := t, device := ts \<rparr>"
  by (simp add: readNext_def)

lemma atEnd_token [simp]:
  "atEnd (r\<lparr> token := t, device := d \<rparr>) \<longleftrightarrow> t = EndDocument \<or> t = Invalid"
  by (simp add: atEnd_def)

lemma isEnd_token [simp]:
  "isEndElement (r\<lparr> token := t, device := d \<rparr>) \<longleftrightarrow> (\<exists>n u. t = EndElement n u)"
  by (cases t) (simp_all add: isEndElement_def)

lemma isStart_token [simp]:
  "isStartElement (r\<lparr> token := t, device := d \<rparr>) \<longleftrightarrow> (\<exists>n u a. t = StartElement n u a)"
  by (cases t) (simp_all add: isStartElement_def)

lemma skipSubtree_step:
  assumes "\<not> atEnd r" and "device r = t # ts" and "t \<noteq> Invalid"
  shows "skipSubtree r =
           (let r1 = r\<lparr> token := t, device := ts \<rparr>
            in if isEndElement r1 then r1
               else if isStartElement r1 then skipSubtree (skipSubtree r1)
               else skipSubtree r1)"
proof -
  have "readNext r = r\<lparr> token := t, device := ts \<rparr>"
    using assms by (intro readNext_Cons) (auto simp: atEnd_def)
  then show ?thesis using assms(1) by (subst skipSubtree.simps) (simp add: Let_def)
qed

lemma skipSubtree_children:
  assumes "\<forall>c \<in> set cs. skipsOver c"
    and "\<not> atEnd r" and "device r = concat (map tokens cs) @ EndElement n u # rest"
  shows "skipSubtree r = r\<lparr> token := EndElement n u, device := rest \<rparr>"
  using assms
proof (induction cs arbitrary: r)
  case Nil
  then show ?case by (simp add: skipSubtree_step)
next
  case (Cons c cs)
  let ?r1 = "r\<lparr> token := lastToken c, device := concat (map tokens cs) @ EndElement n u # rest \<rparr>"
  have "skipsOver c" using Cons.prems(1) by simp
  then have a: "skipSubtree r = skipSubtree ?r1"
    using Cons.prems(2,3) by (simp add: skipsOver_def)
  have ne: "\<not> atEnd ?r1" by (cases c) simp_all
  have "skipSubtree ?r1 = ?r1\<lparr> token := EndElement n u, device := rest \<rparr>"
    using Cons.IH[of ?r1] Cons.prems(1) ne by simp
  then show ?case using a by simp
qed

lemma skipsOver_node: "skipsOver c"
proof (induction c)
  case (Element n u a cs)
  show ?case
    unfolding skipsOver_def
  proof (intro allI impI, elim conjE)
    fix r rest
    assume ne: "\<not> atEnd r" and d: "device r = tokens (Element n u a cs) @ rest"
    let ?r1 = "r\<lparr> token := StartElement n u a,
                   device := concat (map tokens cs) @ EndElement n u # rest \<rparr>"
    have in1: "skipSubtree ?r1 = ?r1\<lparr> token := EndElement n u, device := rest \<rparr>"
      by (rule skipSubtree_children) (use Element.IH in auto)
    have "skipSubtree r = skipSubtree (skipSubtree ?r1)"
      using ne d by (subst skipSubtree_step[where t = "StartElement n u a"
            and ts = "concat (map tokens cs) @ EndElement n u # rest"]) (simp_all add: Let_def)
    then show "skipSubtree r = skipSubtree (r\<lparr> token := lastToken (Element n u a cs), device := rest \<rparr>)"
      using in1 by simp
  qed
next
  case (Text t)
  show ?case
    unfolding skipsOver_def
    by (auto simp: skipSubtree_step[where t = "Characters t"] Let_def)
next
  case CommentNode
  show ?case
    unfolding skipsOver_def
    by (auto simp: skipSubtree_step[where t = Comment] Let_def)
qed

lemma skipSubtree_element:
  assumes "\<not> atEnd r" and "device r = concat (map tokens cs) @ EndElement n u # rest"
  shows "skipSubtree r = r\<lparr> token := EndElement n u, device := rest \<rparr>"
  by (rule skipSubtree_children) (use assms skipsOver_node in auto)

lemma readElementText_loop_text:
  assumes "list_all textOnly cs" and "token r \<noteq> Invalid"
    and "device r = concat (map tokens cs) @ EndElement n u # rest"
  shows "readElementText_loop r acc =
           (r\<lparr> token := EndElement n u, device := rest \<rparr>, acc @ elementText cs)"
  using assms
proof (induction cs arbitrary: r acc)
  case Nil
  have "readNext r = r\<lparr> token := EndElement n u, device := rest \<rparr>"
    using Nil by (intro readNext_Cons) simp_all
  then show ?case
    by (subst readElementText_loop.simps) (simp add: Let_def elementText_def)
next
  case (Cons c cs)
  let ?d = "concat (map tokens cs) @ EndElement n u # rest"
  show ?case
  proof (cases c)
    case (Element n' u' a' cs')
    then show ?thesis using Cons.prems by simp
  next
    case (Text t)
    let ?r1 = "r\<lparr> token := Characters t, device := ?d \<rparr>"
    have rn: "readNext r = ?r1"
      using Cons.prems Text by (intro readNext_Cons) simp_all
    have "readElementText_loop ?r1 (acc @ t)
            = (?r1\<lparr> token := EndElement n u, device := rest \<rparr>, (acc @ t) @ elementText cs)"
      using Cons.prems by (intro Cons.IH) simp_all
    then show ?thesis
      using rn Text by (subst readElementText_loop.simps) (simp add: Let_def elementText_def)
  next
    case CommentNode
    let ?r1 = "r\<lparr> token := Comment, device := ?d \<rparr>"
    have rn: "readNext r = ?r1"
      using Cons.prems CommentNode by (intro readNext_Cons) simp_all
    have "readElementText_loop ?r1 acc
            = (?r1\<lparr> token := EndElement n u, device := rest \<rparr>, acc @ elementText cs)"
      using Cons.prems by (intro Cons.IH) simp_all
    then show ?thesis
      using rn CommentNode
      by (subst readElementText_loop.simps) (simp add: Let_def elementText_def)
  qed
qed

lemma readElementText_text:
  assumes "list_all textOnly cs" and "token r = StartElement n u a"
    and "device r = concat (map tokens cs) @ EndElement n u # rest"
  shows "readElementText r = (r\<lparr> token := EndElement n u, device := rest \<rparr>, elementText cs)"
  using readElementText_loop_text[OF assms(1) _ assms(3), of "[]"] assms(2)
  by (simp add: readElementText_def isStartElement_def)

lemma readUrl_loop_step:
  assumes "\<not> atEnd r" and "device r = t # ts" and "t \<noteq> Invalid"
  shows "readUrl_loop r ps =
           (let r1 = r\<lparr> token := t, device := ts \<rparr>
            in if isEndElement r1 then (r1, ps)
               else if \<not> isStartElement r1 then readUrl_loop r1 ps
               else if elementName r1 = ''Param'' \<or> elementName r1 = ''Parameter''
               then (case readParameter r1 ps of (r2, ps2) \<Rightarrow> readUrl_loop r2 ps2)
               else readUrl_loop (skipSubtree r1) ps)"
proof -
  have "readNext r = r\<lparr> token := t, device := ts \<rparr>"
    using assms by (intro readNext_Cons) (auto simp: atEnd_def)
  then show ?thesis using assms(1) by (subst readUrl_loop.simps) (simp add: Let_def)
qed

lemma readUrl_loop_children:
  assumes "list_all urlChildOk cs" and "\<not> atEnd r"
    and "device r = concat (map tokens cs) @ EndElement n u # rest"
  shows "readUrl_loop r ps = (r\<lparr> token := EndElement n u, device := rest \<rparr>, ps @ paramsOf cs)"
  using assms
proof (induction cs arbitrary: r ps)
  case Nil
  then show ?case by (simp add: readUrl_loop_step paramsOf_def)
next
  case (Cons c cs)
  let ?d = "concat (map tokens cs) @ EndElement n u # rest"
  have IH: "\<And>r' ps'. \<not> atEnd r' \<Longrightarrow> device r' = ?d \<Longrightarrow>
      readUrl_loop r' ps' = (r'\<lparr> token := EndElement n u, device := rest \<rparr>, ps' @ paramsOf cs)"
    using Cons.IH Cons.prems(1) by simp
  show ?case
  proof (cases c)
    case (Text t)
    have "readUrl_loop r ps = readUrl_loop (r\<lparr> token := Characters t, device := ?d \<rparr>) ps"
      using Cons.prems Text by (subst readUrl_loop_step[where t = "Characters t" and ts = ?d]) simp_all
    then show ?thesis using IH[of "r\<lparr> token := Characters t, device := ?d \<rparr>" ps] Text
      by (simp add: paramsOf_def)
  next
    case CommentNode
    have "readUrl_loop r ps = readUrl_loop (r\<lparr> token := Comment, device := ?d \<rparr>) ps"
      using Cons.prems CommentNode by (subst readUrl_loop_step[where t = Comment and ts = ?d]) simp_all
    then show ?thesis using IH[of "r\<lparr> token := Comment, device := ?d \<rparr>" ps] CommentNode
      by (simp add: paramsOf_def)
  next
    case (Element n' u' a' cs')
    let ?r1 = "r\<lparr> token := StartElement n' u' a',
                   device := concat (map tokens cs') @ EndElement n' u' # ?d \<rparr>"
    let ?r2 = "r\<lparr> token := EndElement n' u', device := ?d \<rparr>"
    have st: "readUrl_loop r ps =
           (if n' = ''Param'' \<or> n' = ''Parameter''
            then (case readParameter ?r1 ps of (r2, ps2) \<Rightarrow> readUrl_loop r2 ps2)
            else readUrl_loop (skipSubtree ?r1) ps)"
      using Cons.prems Element
      by (subst readUrl_loop_step[where t = "StartElement n' u' a'"
            and ts = "concat (map tokens cs') @ EndElement n' u' # ?d"])
         (simp_all add: elementName_def)
    show ?thesis
    proof (cases "n' = ''Param'' \<or> n' = ''Parameter''")
      case True
      then have ok: "attrValue a' ''name'' \<noteq> []" "attrValue a' ''value'' \<noteq> []" "cs' = []"
        using Cons.prems(1) Element by auto
      have "readNext ?r1 = ?r2"
        using ok by (simp add: readNext_def)
      then have "readParameter ?r1 ps = (?r2, ps @ [(attrValue a' ''name'', attrValue a' ''value'')])"
        using ok by (simp add: readParameter_def attributes_def Let_def)
      then show ?thesis
        using st True IH[of ?r2 "ps @ [(attrValue a' ''name'', attrValue a' ''value'')]"] Element
        by (simp add: paramsOf_def)
    next
      case False
      have "skipSubtree ?r1 = ?r1\<lparr> token := EndElement n' u', device := ?d \<rparr>"
        by (rule skipSubtree_element) simp_all
      then show ?thesis
        using st False IH[of ?r2 ps] Element by (simp add: paramsOf_def)
    qed
  qed
qed

lemma readUrl_skipped:
  assumes "token r = StartElement n u a"
    and "device r = concat (map tokens cs) @ EndElement n u # rest"
    and "attrValue a ''template'' = []
         \<or> (urlType a = ''application/x-suggestions+json'' \<and> suggestionsUrlTemplate e \<noteq> [])
         \<or> (urlType a = ''text/html'' \<and> searchUrlTemplate e \<noteq> [])"
  shows "readUrl (r, e) = (r\<lparr> token := EndElement n u, device := rest \<rparr>, e)"
proof -
  have "skipSubtree r = r\<lparr> token := EndElement n u, device := rest \<rparr>"
    using assms(1,2) by (intro skipSubtree_element) (simp_all add: atEnd_def)
  then show ?thesis
    using assms(1,3) by (auto simp: readUrl_def Let_def attributes_def urlType_def)
qed

lemma readUrl_element:
  assumes "token r = StartElement n u a"
    and "device r = concat (map tokens cs) @ EndElement n u # rest"
    and "list_all urlChildOk cs"
  shows "readUrl (r, e) = (r\<lparr> token := EndElement n u, device := rest \<rparr>, applyUrl a cs e)"
proof (cases "attrValue a ''template'' = []
         \<or> (urlType a = ''application/x-suggestions+json'' \<and> suggestionsUrlTemplate e \<noteq> [])
         \<or> (urlType a = ''text/html'' \<and> searchUrlTemplate e \<noteq> [])")
  case True
  then have "applyUrl a cs e = e" by (auto simp: applyUrl_def)
  then show ?thesis using readUrl_skipped[OF assms(1,2) True] by simp
next
  case False
  have l: "readUrl_loop r [] = (r\<lparr> token := EndElement n u, device := rest \<rparr>, paramsOf cs)"
    using readUrl_loop_children[OF assms(3) _ assms(2), of "[]"] assms(1)
    by (simp add: atEnd_def)
  show ?thesis
    using False assms(1) l
    by (auto simp: readUrl_def Let_def attributes_def urlType_def applyUrl_def)
qed

lemma readDocument_loop_step:
  assumes "\<not> atEnd r" and "device r = t # ts" and "t \<noteq> Invalid"
  shows "readDocument_loop (r, e) =
           (let r1 = r\<lparr> token := t, device := ts \<rparr>
            in if isEndElement r1 then (r1, e)
               else if \<not> isStartElement r1 then readDocument_loop (r1, e)
               else if elementName r1 = ''ShortName'' then readDocument_loop (readName (r1, e))
               else if elementName r1 = ''Description'' then readDocument_loop (readDescription (r1, e))
               else if elementName r1 = ''Url'' then readDocument_loop (readUrl (r1, e))
               else if elementName r1 = ''Image'' then readDocument_loop (readImage (r1, e))
               else if elementName r1 = ''Tags'' then readDocument_loop (readTags (r1, e))
               else readDocument_loop (skipSubtree r1, e))"
proof -
  have "readNext r = r\<lparr> token := t, device := ts \<rparr>"
    using assms by (intro readNext_Cons) (auto simp: atEnd_def)
  then show ?thesis using assms(1) by (subst readDocument_loop.simps) (simp add: Let_def)
qed

text \<open>One well-formed child of the root in front of the reader: the loop takes it whole,
  and the engine changes as \<open>applyChild\<close> says.\<close>

lemma readDocument_loop_child:
  assumes "childOk c" and "\<not> atEnd r" and "device r = tokens c @ rest"
  shows "readDocument_loop (r, e) =
           readDocument_loop (r\<lparr> token := lastToken c, device := rest \<rparr>, applyChild c e)"
proof (cases c)
  case (Text t)
  then show ?thesis
    using assms by (subst readDocument_loop_step[where t = "Characters t" and ts = rest]) simp_all
next
  case CommentNode
  then show ?thesis
    using assms by (subst readDocument_loop_step[where t = Comment and ts = rest]) simp_all
next
  case (Element n u a cs)
  let ?d = "concat (map tokens cs) @ EndElement n u # rest"
  let ?r1 = "r\<lparr> token := StartElement n u a, device := ?d \<rparr>"
  let ?r2 = "r\<lparr> token := EndElement n u, device := rest \<rparr>"
  have st: "readDocument_loop (r, e) =
          (if n = ''ShortName'' then readDocument_loop (readName (?r1, e))
           else if n = ''Description'' then readDocument_loop (readDescription (?r1, e))
           else if n = ''Url'' then readDocument_loop (readUrl (?r1, e))
           else if n = ''Image'' then readDocument_loop (readImage (?r1, e))
           else if n = ''Tags'' then readDocument_loop (readTags (?r1, e))
           else readDocument_loop (skipSubtree ?r1, e))"
    using assms Element
    by (subst readDocument_loop_step[where t = "StartElement n u a" and ts = ?d])
       (simp_all add: elementName_def)
  have tx: "list_all textOnly cs \<Longrightarrow> readElementText ?r1 = (?r2, elementText cs)"
    using readElementText_text[of cs ?r1 n u a rest] by simp
  have ur: "list_all urlChildOk cs \<Longrightarrow> readUrl (?r1, e) = (?r2, applyUrl a cs e)"
    using readUrl_element[of ?r1 n u a cs rest e] by simp
  have skp: "skipSubtree ?r1 = ?r2"
    using skipSubtree_element[of ?r1 cs n u rest] by simp
  consider (name) "n = ''ShortName''" | (desc) "n = ''Description''" | (url) "n = ''Url''"
    | (image) "n = ''Image''" | (tags) "n = ''Tags''"
    | (other) "n \<noteq> ''ShortName''" "n \<noteq> ''Description''" "n \<noteq> ''Url''"
        "n \<noteq> ''Image''" "n \<noteq> ''Tags''"
    by blast
  then show ?thesis
  proof cases
    case name
    then have "readName (?r1, e) = (?r2, applyChild c e)"
      using tx assms(1) Element by (simp add: readName_def)
    then show ?thesis using st name Element by simp
  next
    case desc
    then have "readDescription (?r1, e) = (?r2, applyChild c e)"
      using tx assms(1) Element by (simp add: readDescription_def)
    then show ?thesis using st desc Element by simp
  next
    case url
    then have "readUrl (?r1, e) = (?r2, applyChild c e)"
      using ur assms(1) Element by simp
    then show ?thesis using st url Element by simp
  next
    case image
    then have "readImage (?r1, e) = (?r2, applyChild c e)"
      using tx assms(1) Element by (simp add: readImage_def)
    then show ?thesis using st image Element by simp
  next
    case tags
    then have "readTags (?r1, e) = (?r2, applyChild c e)"
      using tx assms(1) Element by (simp add: readTags_def)
    then show ?thesis using st tags Element by simp
  next
    case other
    then show ?thesis using st skp Element by simp
  qed
qed

lemma readDocument_loop_children:
  assumes "list_all childOk cs" and "\<not> atEnd r"
    and "device r = concat (map tokens cs) @ EndElement n u # rest"
  shows "readDocument_loop (r, e) =
           (r\<lparr> token := EndElement n u, device := rest \<rparr>, applyChildren cs e)"
  using assms
proof (induction cs arbitrary: r e)
  case Nil
  then show ?case by (simp add: readDocument_loop_step)
next
  case (Cons c cs)
  let ?r1 = "r\<lparr> token := lastToken c, device := concat (map tokens cs) @ EndElement n u # rest \<rparr>"
  have a: "readDocument_loop (r, e) = readDocument_loop (?r1, applyChild c e)"
    using Cons.prems by (intro readDocument_loop_child) simp_all
  have ne: "\<not> atEnd ?r1" by (cases c) simp_all
  have "readDocument_loop (?r1, applyChild c e)
          = (?r1\<lparr> token := EndElement n u, device := rest \<rparr>, applyChildren cs (applyChild c e))"
    using Cons.prems(1) ne by (intro Cons.IH) simp_all
  then show ?case using a by simp
qed

text \<open>A description document: a prologue without elements, the root element, and what
  follows it.\<close>

lemma read_document:
  assumes "\<forall>t \<in> set pre. (\<forall>n u a. t \<noteq> StartElement n u a) \<and> t \<noteq> EndDocument \<and> t \<noteq> Invalid"
    and "list_all childOk cs"
  shows "read (pre @ tokens (Element ''OpenSearchDescription''
                  ''http://a9.com/-/spec/opensearch/1.1/'' a cs) @ rest) =
           (Some (applyChildren cs newEngine),
            \<lparr> token = EndElement ''OpenSearchDescription'' ''http://a9.com/-/spec/opensearch/1.1/'',
              device = rest, error = None \<rparr>)"
proof -
  let ?n = "''OpenSearchDescription''" and ?u = "''http://a9.com/-/spec/opensearch/1.1/''"
  let ?d = "concat (map tokens cs) @ EndElement ?n ?u # rest"
  let ?r0 = "setDevice (pre @ tokens (Element ?n ?u a cs) @ rest) clear"
  let ?r1 = "\<lparr> token = StartElement ?n ?u a, device = ?d, error = None \<rparr>"
  have "skipToStartElement ?r0 = ?r0\<lparr> token := StartElement ?n ?u a, device := ?d \<rparr>"
    by (rule skipToStartElement_prefix[OF assms(1)])
       (simp_all add: setDevice_def clear_def isStartElement_def atEnd_def)
  then have s: "skipToStartElement ?r0 = ?r1"
    by (simp add: setDevice_def clear_def)
  have l: "readDocument_loop (?r1, newEngine)
             = (?r1\<lparr> token := EndElement ?n ?u, device := rest \<rparr>, applyChildren cs newEngine)"
    by (rule readDocument_loop_children[OF assms(2)]) (simp_all add: atEnd_def)
  show ?thesis
    unfolding read_def readDocument_def Let_def s
    by (simp add: elementName_def namespaceUri_def l)
qed

subsection \<open>Repeated elements and parameters without a value (C3, C8, C9)\<close>

lemma search_fields_readUrl:
  assumes "searchUrlTemplate e \<noteq> []"
  shows "searchUrlTemplate (snd (readUrl (r, e))) = searchUrlTemplate e
       \<and> searchParameters (snd (readUrl (r, e))) = searchParameters e
       \<and> searchMethod (snd (readUrl (r, e))) = searchMethod e"
  using assms
  by (auto simp: readUrl_def Let_def setSuggestionsMethod_eq setSuggestionsParameters_def
        setSuggestionsUrlTemplate_def split: prod.splits)

lemma suggestions_fields_readUrl:
  assumes "suggestionsUrlTemplate e \<noteq> []"
  shows "suggestionsUrlTemplate (snd (readUrl (r, e))) = suggestionsUrlTemplate e
       \<and> suggestionsParameters (snd (readUrl (r, e))) = suggestionsParameters e
       \<and> suggestionsMethod (snd (readUrl (r, e))) = suggestionsMethod e"
  using assms
  by (auto simp: readUrl_def Let_def setSearchMethod_eq setSearchParameters_def
        setSearchUrlTemplate_def split: prod.splits)

lemma search_fields_kept:
  assumes "searchUrlTemplate e \<noteq> []"
  shows "searchUrlTemplate (snd (readDocument_loop (r, e))) = searchUrlTemplate e
       \<and> searchParameters (snd (readDocument_loop (r, e))) = searchParameters e
       \<and> searchMethod (snd (readDocument_loop (r, e))) = searchMethod e"
proof -
  let ?P = "\<lambda>x. searchUrlTemplate x = searchUrlTemplate e
            \<and> searchParameters x = searchParameters e \<and> searchMethod x = searchMethod e"
  have "?P (snd (readDocument_loop (r, e)))"
  proof (rule readDocument_loop_preserves[where P = ?P])
    show "\<And>r x. ?P x \<Longrightarrow> ?P (snd (readUrl (r, x)))"
      using assms search_fields_readUrl by metis
  qed (auto simp: readName_def readDescription_def readImage_def readTags_def
         setName_def setDescription_def setImageUrl_def setTags_def split: prod.splits)
  then show ?thesis .
qed

lemma suggestions_fields_kept:
  assumes "suggestionsUrlTemplate e \<noteq> []"
  shows "suggestionsUrlTemplate (snd (readDocument_loop (r, e))) = suggestionsUrlTemplate e
       \<and> suggestionsParameters (snd (readDocument_loop (r, e))) = suggestionsParameters e
       \<and> suggestionsMethod (snd (readDocument_loop (r, e))) = suggestionsMethod e"
proof -
  let ?P = "\<lambda>x. suggestionsUrlTemplate x = suggestionsUrlTemplate e
            \<and> suggestionsParameters x = suggestionsParameters e
            \<and> suggestionsMethod x = suggestionsMethod e"
  have "?P (snd (readDocument_loop (r, e)))"
  proof (rule readDocument_loop_preserves[where P = ?P])
    show "\<And>r x. ?P x \<Longrightarrow> ?P (snd (readUrl (r, x)))"
      using assms suggestions_fields_readUrl by metis
  qed (auto simp: readName_def readDescription_def readImage_def readTags_def
         setName_def setDescription_def setImageUrl_def setTags_def split: prod.splits)
  then show ?thesis .
qed

text \<open>
  Claim C3. Once a search URL (type \<open>text/html\<close>, also when the type is empty or
  \<open>application/xhtml+xml\<close>) or a suggestions URL (type \<open>application/x-suggestions+json\<close>) is
  recorded in the engine, a later \<open>Url\<close> element of that type leaves the engine as it is,
  and the reader ends on the end tag of that element, whatever the element contains, so
  that the loop over the children of the root goes on with what follows the element.
  From then on nothing the reader reads changes the recorded template, parameters and
  method of that type.
\<close>

theorem later_url_of_recorded_type_is_skipped:
  "(token r = StartElement n u a
      \<and> device r = concat (map tokens cs) @ EndElement n u # rest
      \<and> ((urlType a = ''text/html'' \<and> searchUrlTemplate e \<noteq> [])
         \<or> (urlType a = ''application/x-suggestions+json'' \<and> suggestionsUrlTemplate e \<noteq> []))
    \<longrightarrow> readUrl (r, e) = (r\<lparr> token := EndElement n u, device := rest \<rparr>, e))
   \<and> (\<not> atEnd r0 \<and> device r0 = tokens (Element ''Url'' u a cs) @ rest
      \<and> ((urlType a = ''text/html'' \<and> searchUrlTemplate e \<noteq> [])
         \<or> (urlType a = ''application/x-suggestions+json'' \<and> suggestionsUrlTemplate e \<noteq> []))
    \<longrightarrow> readDocument_loop (r0, e) =
          readDocument_loop (r0\<lparr> token := EndElement ''Url'' u, device := rest \<rparr>, e))
   \<and> (searchUrlTemplate e \<noteq> []
    \<longrightarrow> searchUrlTemplate (snd (readDocument_loop (r1, e))) = searchUrlTemplate e
        \<and> searchParameters (snd (readDocument_loop (r1, e))) = searchParameters e
        \<and> searchMethod (snd (readDocument_loop (r1, e))) = searchMethod e)
   \<and> (suggestionsUrlTemplate e \<noteq> []
    \<longrightarrow> suggestionsUrlTemplate (snd (readDocument_loop (r1, e))) = suggestionsUrlTemplate e
        \<and> suggestionsParameters (snd (readDocument_loop (r1, e))) = suggestionsParameters e
        \<and> suggestionsMethod (snd (readDocument_loop (r1, e))) = suggestionsMethod e)"
proof -
  have a: "readUrl (r, e) = (r\<lparr> token := EndElement n u, device := rest \<rparr>, e)"
    if "token r = StartElement n u a"
      "device r = concat (map tokens cs) @ EndElement n u # rest"
      "(urlType a = ''text/html'' \<and> searchUrlTemplate e \<noteq> [])
         \<or> (urlType a = ''application/x-suggestions+json'' \<and> suggestionsUrlTemplate e \<noteq> [])"
    using that by (intro readUrl_skipped) auto
  have b: "readDocument_loop (r0, e) =
          readDocument_loop (r0\<lparr> token := EndElement ''Url'' u, device := rest \<rparr>, e)"
    if h: "\<not> atEnd r0" "device r0 = tokens (Element ''Url'' u a cs) @ rest"
      "(urlType a = ''text/html'' \<and> searchUrlTemplate e \<noteq> [])
         \<or> (urlType a = ''application/x-suggestions+json'' \<and> suggestionsUrlTemplate e \<noteq> [])"
  proof -
    let ?d = "concat (map tokens cs) @ EndElement ''Url'' u # rest"
    let ?r1 = "r0\<lparr> token := StartElement ''Url'' u a, device := ?d \<rparr>"
    have "readUrl (?r1, e) = (?r1\<lparr> token := EndElement ''Url'' u, device := rest \<rparr>, e)"
      using h(3) by (intro readUrl_skipped) auto
    moreover have "readDocument_loop (r0, e) = readDocument_loop (readUrl (?r1, e))"
      using h(1,2)
      by (subst readDocument_loop_step[where t = "StartElement ''Url'' u a" and ts = ?d])
         (simp_all add: elementName_def)
    ultimately show ?thesis by simp
  qed
  show ?thesis
    using a b search_fields_kept[of e r1] suggestions_fields_kept[of e r1] by blast
qed

theorem later_url_of_recorded_type_is_skipped_witness:
  "\<not> atEnd (fst afterFirstUrl)
   \<and> urlType [(''template'', ''http://b.example/'')] = ''text/html''
   \<and> searchUrlTemplate (snd afterFirstUrl) \<noteq> []
   \<and> readDocument_loop afterFirstUrl =
       (\<lparr> token = EndElement ''OpenSearchDescription'' ns11, device = [EndDocument],
          error = None \<rparr>,
        newEngine\<lparr> name := ''Example'', searchUrlTemplate := ''http://a.example/'',
                   searchParameters := [(''q'', ''1'')], searchMethod := ''post'' \<rparr>)
   \<and> read (document twoSearchUrls) =
       (Some (newEngine\<lparr> name := ''Example'', searchUrlTemplate := ''http://a.example/'',
                         searchParameters := [(''q'', ''1'')], searchMethod := ''post'' \<rparr>),
        \<lparr> token = EndElement ''OpenSearchDescription'' ns11, device = [EndDocument],
          error = None \<rparr>)"
proof -
  let ?r0 = "fst afterFirstUrl" and ?e = "snd afterFirstUrl"
  let ?rest = "tokens (twoSearchUrls ! 2) @ [EndElement ''OpenSearchDescription'' ns11, EndDocument]"
  have h: "\<not> atEnd ?r0"
    "device ?r0 = tokens (Element ''Url'' ns11 [(''template'', ''http://b.example/'')]
                    [Element ''Param'' ns11 [(''name'', ''r''), (''value'', ''2'')] []]) @ ?rest"
    "urlType [(''template'', ''http://b.example/'')] = ''text/html''"
    "searchUrlTemplate ?e \<noteq> []"
    by (simp_all add: afterFirstUrl_def atEnd_def twoSearchUrls_def urlType_def attrValue_def)
  have skip: "readDocument_loop (?r0, ?e) =
      readDocument_loop (?r0\<lparr> token := EndElement ''Url'' ns11, device := ?rest \<rparr>, ?e)"
    using later_url_of_recorded_type_is_skipped[where ?r0.0 = ?r0 and e = ?e and u = ns11
        and a = "[(''template'', ''http://b.example/'')]" and rest = ?rest
        and cs = "[Element ''Param'' ns11 [(''name'', ''r''), (''value'', ''2'')] []]"] h
    by blast
  have fin: "readDocument_loop (?r0\<lparr> token := EndElement ''Url'' ns11, device := ?rest \<rparr>, ?e) =
       (\<lparr> token = EndElement ''OpenSearchDescription'' ns11, device = [EndDocument],
          error = None \<rparr>,
        newEngine\<lparr> name := ''Example'', searchUrlTemplate := ''http://a.example/'',
                   searchParameters := [(''q'', ''1'')], searchMethod := ''post'' \<rparr>)"
    by code_simp
  have doc: "read (document twoSearchUrls) =
       (Some (newEngine\<lparr> name := ''Example'', searchUrlTemplate := ''http://a.example/'',
                         searchParameters := [(''q'', ''1'')], searchMethod := ''post'' \<rparr>),
        \<lparr> token = EndElement ''OpenSearchDescription'' ns11, device = [EndDocument],
          error = None \<rparr>)"
    by code_simp
  show ?thesis using h skip fin doc by simp
qed

text \<open>
  Claim C8, at the document of \<open>paramWithoutValue\<close>. The \<open>Param\<close> without a value is
  dropped, but \<open>readParameter\<close> returns without moving the reader, unlike its other path,
  which calls \<open>readNext\<close>. The end tag of that \<open>Param\<close> is then taken for the end of the \<open>Url\<close>
  element: the valid \<open>Param\<close> that follows is not captured, and the end tag of the \<open>Url\<close>
  element ends the loop over the children of the root, so the \<open>ShortName\<close> after it is
  never read. No error is raised.
\<close>

theorem param_without_value_stops_the_reader:
  "read paramWithoutValue =
     (Some (newEngine\<lparr> searchUrlTemplate := ''http://example.com/'' \<rparr>),
      \<lparr> token = EndElement ''Url'' ns11,
        device = [StartElement ''ShortName'' ns11 [], Characters ''Example'',
                  EndElement ''ShortName'' ns11,
                  EndElement ''OpenSearchDescription'' ns11, EndDocument],
        error = None \<rparr>)
   \<and> searchParameters (newEngine\<lparr> searchUrlTemplate := ''http://example.com/'' \<rparr>) = []
   \<and> name (newEngine\<lparr> searchUrlTemplate := ''http://example.com/'' \<rparr>) = []"
proof -
  have "read paramWithoutValue =
     (Some (newEngine\<lparr> searchUrlTemplate := ''http://example.com/'' \<rparr>),
      \<lparr> token = EndElement ''Url'' ns11,
        device = [StartElement ''ShortName'' ns11 [], Characters ''Example'',
                  EndElement ''ShortName'' ns11,
                  EndElement ''OpenSearchDescription'' ns11, EndDocument],
        error = None \<rparr>)"
    by code_simp
  then show ?thesis by (simp add: newEngine_def)
qed

lemma name_applyUrl: "name (applyUrl a cs e) = name e"
  by (simp add: applyUrl_def setSearchMethod_eq setSuggestionsMethod_eq setSearchParameters_def
        setSuggestionsParameters_def setSearchUrlTemplate_def setSuggestionsUrlTemplate_def)

lemma name_applyChild: "\<not> isShortName c \<Longrightarrow> name (applyChild c e) = name e"
  by (cases c) (simp_all add: name_applyUrl setDescription_def setImageUrl_def setTags_def)

lemma name_applyChildren:
  "\<forall>c \<in> set cs. \<not> isShortName c \<Longrightarrow> name (applyChildren cs e) = name e"
  by (induction cs arbitrary: e) (simp_all add: name_applyChild)

lemma applyChildren_append:
  "applyChildren (xs @ ys) e = applyChildren ys (applyChildren xs e)"
  by (induction xs arbitrary: e) simp_all

lemma read_document_children:
  assumes "list_all childOk cs"
  shows "fst (read (document cs)) = Some (applyChildren cs newEngine)"
  using read_document[of "[StartDocument]" cs "[]" "[EndDocument]"] assms
  by (simp add: document_def ns11_def)

text \<open>
  Claim C9, as the code has it. \<open>readName\<close> sets the name each time, so of several
  \<open>ShortName\<close> children of the root the last one gives the name: in a document whose root
  has well-formed children (\<open>childOk\<close>), the name of the engine \<open>read\<close> returns is the text of
  the last \<open>ShortName\<close> element.
\<close>

theorem last_ShortName_wins:
  assumes "list_all childOk (before @ Element ''ShortName'' u a ts # after)"
    and "\<forall>c \<in> set after. \<not> isShortName c"
  shows "map_option name (fst (read (document (before @ Element ''ShortName'' u a ts # after))))
           = Some (elementText ts)"
proof -
  have "name (applyChildren (before @ Element ''ShortName'' u a ts # after) newEngine)
          = elementText ts"
    using assms(2) by (simp add: applyChildren_append name_applyChildren setName_def)
  then show ?thesis
    using read_document_children[OF assms(1)] by simp
qed

theorem last_ShortName_wins_witness:
  "list_all childOk twoNames
   \<and> map_option name (fst (read (document twoNames))) = Some ''Second''"
proof -
  have t: "twoNames = [Element ''ShortName'' ns11 [] [Text ''First'']]
             @ Element ''ShortName'' ns11 [] [Text ''Second''] # []"
    by (simp add: twoNames_def)
  have ok: "list_all childOk twoNames" by (simp add: twoNames_def)
  show ?thesis
    using last_ShortName_wins[of "[Element ''ShortName'' ns11 [] [Text ''First'']]" ns11 "[]"
        "[Text ''Second'']" "[]"] ok
    unfolding t[symmetric] by (simp add: elementText_def)
qed

theorem first_ShortName_does_not_win:
  "map_option name (fst (read (document twoNames))) = Some ''Second''
   \<and> map_option name (fst (read (document twoNames))) \<noteq> Some ''First''"
proof -
  have "read (document twoNames) =
     (Some (newEngine\<lparr> name := ''Second'' \<rparr>),
      \<lparr> token = EndElement ''OpenSearchDescription'' ns11, device = [EndDocument],
        error = None \<rparr>)"
    by code_simp
  then show ?thesis by simp
qed

subsection \<open>A request that supersedes another (C6)\<close>



lemma wired_pending:
  "wired w \<Longrightarrow> suggestionsReply (engine w) = Some k \<Longrightarrow>
   k < length (replies w) \<and> \<not> finished (replies w ! k)"
  by (auto simp: wired_def)

lemma wired_pendingValid: "wired w \<Longrightarrow> pendingValid w"
  by (auto simp: wired_def pendingValid_def split: option.splits)


lemma suggestionsObtained_emits:
  assumes "suggestionsReply (engine w) = Some i" and "i < length (replies w)"
  shows "\<exists>w'. suggestionsObtained js w = Inr w'
           \<and> suggestionsReply (engine w') = None
           \<and> emitted w' =
               emitted w @ (case spec_suggestions js (body (replies w ! i)) of
                              None \<Rightarrow> [] | Some l \<Rightarrow> [l])"
  using assms
  by (simp add: suggestionsObtained_def spec_suggestions_def Let_def updateReply_def)

text \<open>The slot on a wired world with a pending reply.\<close>

lemma suggestionsObtained_wired:
  assumes "wired w" and "suggestionsReply (engine w) = Some j"
  shows "\<exists>w'. suggestionsObtained js w = Inr w'
           \<and> emitted w' = emitted w @ notification js (Some (body (replies w ! j)))
           \<and> suggestionsReply (engine w') = None
           \<and> config (engine w') = config (engine w)
           \<and> length (replies w') = length (replies w)
           \<and> (\<forall>k < length (replies w). connected (replies w' ! k) = connected (replies w ! k)
                  \<and> finished (replies w' ! k) = finished (replies w ! k))"
proof -
  have j: "j < length (replies w)" using wired_pending[OF assms] by simp
  obtain w' where o: "suggestionsObtained js w = Inr w'"
    and e: "suggestionsReply (engine w') = None"
      "emitted w' = emitted w @ (case spec_suggestions js (body (replies w ! j)) of
                              None \<Rightarrow> [] | Some l \<Rightarrow> [l])"
    using suggestionsObtained_emits[of w j js] assms(2) j by blast
  have c: "config (engine w') = config (engine w)"
    using o by (rule config_suggestionsObtained)
  have r: "replies w' = (replies w)[j := (replies w ! j)\<lparr> closed := True, deleted := True \<rparr>]"
    using o assms(2) j
    by (auto simp: suggestionsObtained_def Let_def updateReply_def split: if_splits)
  have "\<forall>k < length (replies w). connected (replies w' ! k) = connected (replies w ! k)
                  \<and> finished (replies w' ! k) = finished (replies w ! k)"
    unfolding r using j by (simp add: nth_list_update)
  then show ?thesis using o e c r by (auto simp: notification_def)
qed
















subsection \<open>Template expansion (C2)\<close>

lemma prefix_placeholder_inside:
  assumes "braceFree w" and "x \<noteq> []" and "prefix (placeholder w) (x @ CHR ''{'' # z)"
  shows "prefix (placeholder w) x"
proof -
  from assms(3) consider "prefix (placeholder w) x"
    | us where "placeholder w = x @ us" "prefix us (CHR ''{'' # z)"
    by (auto simp: prefix_append)
  then show ?thesis
  proof cases
    case 1
    then show ?thesis .
  next
    case 2
    show ?thesis
    proof (cases us)
      case Nil
      then show ?thesis using 2 by simp
    next
      case (Cons u us')
      then have "u = CHR ''{''" using 2(2) by simp
      then have "CHR ''{'' \<in> set (tl (placeholder w))"
        using 2(1) Cons assms(2) by (cases x) auto
      then show ?thesis using assms(1) by (simp add: placeholder_def braceFree_def)
    qed
  qed
qed

lemma replaceNE_no_open:
  "CHR ''{'' \<notin> set m \<Longrightarrow>
   replaceNE (placeholder w) a (m @ z) = m @ replaceNE (placeholder w) a z"
  by (induction m) (auto simp: placeholder_def)

lemma replaceNE_prefix_step:
  assumes "prefix (placeholder w) x"
  shows "replaceNE (placeholder w) a (x @ z)
           = a @ replaceNE (placeholder w) a (drop (length (placeholder w)) x @ z)"
proof -
  obtain c x' where x: "x = c # x'" using assms by (cases x) (auto simp: placeholder_def)
  have l: "length (placeholder w) \<le> length x" using assms by (rule prefix_length_le)
  have "prefix (placeholder w) (x @ z)" using assms by (rule prefix_prefix)
  then show ?thesis using x l by (simp add: placeholder_def)
qed

text \<open>Literal replacement of a placeholder leaves every other placeholder as it is and
  works on the text before and after it separately.\<close>

lemma replaceNE_other_placeholder:
  assumes "braceFree w" and "braceFree v" and "v \<noteq> w"
  shows "replaceNE (placeholder w) a (x @ placeholder v @ y)
           = replaceNE (placeholder w) a x @ placeholder v @ replaceNE (placeholder w) a y"
proof (induction x rule: length_induct)
  case (1 x)
  let ?b = "placeholder w"
  show ?case
  proof (cases x)
    case Nil
    have np: "\<not> prefix ?b (placeholder v @ y)"
    proof
      assume "prefix ?b (placeholder v @ y)"
      then have p: "prefix (w @ ''}'') (v @ CHR ''}'' # y)" by (simp add: placeholder_def)
      then have "w = v"
        using assms(1,2)
      proof (induction w arbitrary: v)
        case Nil
        then show ?case by (cases v) (auto simp: braceFree_def)
      next
        case (Cons c w)
        then show ?case by (cases v) (auto simp: braceFree_def)
      qed
      then show False using assms(3) by simp
    qed
    have "replaceNE ?b a (placeholder v @ y) = CHR ''{'' # replaceNE ?b a ((v @ ''}'') @ y)"
      using np by (simp add: placeholder_def)
    also have "\<dots> = CHR ''{'' # (v @ ''}'') @ replaceNE ?b a y"
      using assms(2) by (subst replaceNE_no_open) (auto simp: braceFree_def)
    finally show ?thesis using Nil by (simp add: placeholder_def)
  next
    case (Cons c x')
    show ?thesis
    proof (cases "prefix ?b (x @ placeholder v @ y)")
      case True
      have eq: "placeholder v @ y = CHR ''{'' # (v @ ''}'' @ y)"
        by (simp add: placeholder_def)
      have px: "prefix ?b x"
      proof (rule prefix_placeholder_inside[OF assms(1)])
        show "x \<noteq> []" using Cons by simp
        show "prefix ?b (x @ CHR ''{'' # (v @ ''}'' @ y))" using True unfolding eq .
      qed
      let ?x2 = "drop (length ?b) x"
      have sh: "length ?x2 < length x" using Cons by (simp add: placeholder_def)
      have e1: "replaceNE ?b a (x @ placeholder v @ y) = a @ replaceNE ?b a (?x2 @ placeholder v @ y)"
        using replaceNE_prefix_step[OF px] by simp
      have e2: "replaceNE ?b a (?x2 @ placeholder v @ y)
                  = replaceNE ?b a ?x2 @ placeholder v @ replaceNE ?b a y"
        using 1 sh by simp
      have e3: "replaceNE ?b a x = a @ replaceNE ?b a ?x2"
        using replaceNE_prefix_step[OF px, of a "[]"] by simp
      show ?thesis unfolding e1 e2 e3 by simp
    next
      case False
      then have npx: "\<not> prefix ?b x" using prefix_prefix by blast
      have e1: "replaceNE ?b a (x @ placeholder v @ y) = c # replaceNE ?b a (x' @ placeholder v @ y)"
        using False Cons by simp
      have e2: "replaceNE ?b a (x' @ placeholder v @ y)
                  = replaceNE ?b a x' @ placeholder v @ replaceNE ?b a y"
        using 1 Cons by simp
      have e3: "replaceNE ?b a x = c # replaceNE ?b a x'"
        using npx Cons by simp
      show ?thesis unfolding e1 e2 e3 by simp
    qed
  qed
qed

text \<open>Every occurrence is replaced, from left to right.\<close>

lemma replaceNE_occurrence:
  assumes "braceFree w"
  shows "replaceNE (placeholder w) a (x @ placeholder w @ y)
           = replaceNE (placeholder w) a x @ a @ replaceNE (placeholder w) a y"
proof (induction x rule: length_induct)
  case (1 x)
  let ?b = "placeholder w"
  show ?case
  proof (cases x)
    case Nil
    then show ?thesis using replaceNE_prefix_step[of w ?b a y] by simp
  next
    case (Cons c x')
    show ?thesis
    proof (cases "prefix ?b (x @ ?b @ y)")
      case True
      have eq: "?b @ y = CHR ''{'' # (w @ ''}'' @ y)"
        by (simp add: placeholder_def)
      have px: "prefix ?b x"
      proof (rule prefix_placeholder_inside[OF assms])
        show "x \<noteq> []" using Cons by simp
        show "prefix ?b (x @ CHR ''{'' # (w @ ''}'' @ y))" using True unfolding eq .
      qed
      let ?x2 = "drop (length ?b) x"
      have sh: "length ?x2 < length x" using Cons by (simp add: placeholder_def)
      have e1: "replaceNE ?b a (x @ ?b @ y) = a @ replaceNE ?b a (?x2 @ ?b @ y)"
        using replaceNE_prefix_step[OF px] by simp
      have e2: "replaceNE ?b a (?x2 @ ?b @ y) = replaceNE ?b a ?x2 @ a @ replaceNE ?b a y"
        using 1 sh by simp
      have e3: "replaceNE ?b a x = a @ replaceNE ?b a ?x2"
        using replaceNE_prefix_step[OF px, of a "[]"] by simp
      show ?thesis unfolding e1 e2 e3 by simp
    next
      case False
      then have npx: "\<not> prefix ?b x" using prefix_prefix by blast
      have e1: "replaceNE ?b a (x @ ?b @ y) = c # replaceNE ?b a (x' @ ?b @ y)"
        using False Cons by simp
      have e2: "replaceNE ?b a (x' @ ?b @ y) = replaceNE ?b a x' @ a @ replaceNE ?b a y"
        using 1 Cons by simp
      have e3: "replaceNE ?b a x = c # replaceNE ?b a x'"
        using npx Cons by simp
      show ?thesis unfolding e1 e2 e3 by simp
    qed
  qed
qed

lemma suffix_after_open:
  assumes "CHR ''{'' \<notin> set s" and "suffix s (m @ CHR ''{'' # n)"
  shows "suffix s n"
proof -
  from assms(2) consider "suffix s (CHR ''{'' # n)"
    | xs where "s = xs @ CHR ''{'' # n"
    by (auto simp: suffix_append)
  then show ?thesis
  proof cases
    case 1
    then show ?thesis using assms(1) by (auto simp: suffix_Cons)
  next
    case 2
    then show ?thesis using assms(1) by simp
  qed
qed

lemma sourceCapture_after_open:
  assumes "sourceCapture n = None"
  shows "sourceCapture (m @ CHR ''{'' # n) = None"
proof (rule ccontr)
  assume a: "sourceCapture (m @ CHR ''{'' # n) \<noteq> None"
  let ?body = "m @ CHR ''{'' # n"
  let ?stem = "\<lambda>b. if suffix ''?'' b then butlast b else b"
  have q: "suffix ''?'' ?body \<longleftrightarrow> suffix ''?'' n"
    using suffix_after_open[of "''?''" m n] by (auto simp: suffix_def)
  have st: "?stem ?body = m @ CHR ''{'' # ?stem n"
  proof (cases "suffix ''?'' n")
    case True
    then have "n \<noteq> []" by auto
    then show ?thesis using True q by (simp add: butlast_append)
  next
    case False
    then show ?thesis using q by simp
  qed
  from a have s1: "suffix ''source'' (?stem ?body)"
    and s2: "length (?stem ?body) = 6 \<or> suffix '':source'' (?stem ?body)"
    by (auto simp: sourceCapture_def Let_def split: if_splits)
  have n1: "suffix ''source'' (?stem n)"
    using s1 unfolding st by (rule suffix_after_open[rotated]) simp
  have "length (?stem ?body) = 6 \<Longrightarrow> False"
  proof -
    assume "length (?stem ?body) = 6"
    moreover obtain zs where "?stem ?body = zs @ ''source''"
      using s1 by (auto simp: suffix_def)
    ultimately have e: "?stem ?body = ''source''" by auto
    have "CHR ''{'' \<in> set (?stem ?body)" unfolding st by simp
    then show False unfolding e by simp
  qed
  then have "suffix '':source'' (?stem ?body)" using s2 by blast
  then have n2: "suffix '':source'' (?stem n)"
    unfolding st by (rule suffix_after_open[rotated]) simp
  show False using n1 n2 assms by (simp add: sourceCapture_def Let_def split: if_splits)
qed

lemma matchSource_not_open: "c \<noteq> CHR ''{'' \<Longrightarrow> matchSource (c # s) = None"
  by (simp add: matchSource_def)

lemma replaceSource_no_open:
  "CHR ''{'' \<notin> set m \<Longrightarrow> replaceSource app (m @ z) = m @ replaceSource app z"
  by (induction m) (auto simp: matchSource_not_open)

lemma takeWhile_closed:
  assumes "CHR ''}'' \<in> set x"
  shows "takeWhile (\<lambda>c. c \<noteq> CHR ''}'') (x @ z) = takeWhile (\<lambda>c. c \<noteq> CHR ''}'') x"
    and "length (takeWhile (\<lambda>c. c \<noteq> CHR ''}'') x) < length x"
proof -
  show "takeWhile (\<lambda>c. c \<noteq> CHR ''}'') (x @ z) = takeWhile (\<lambda>c. c \<noteq> CHR ''}'') x"
    using assms by (intro takeWhile_append1[where x = "CHR ''}''"]) simp_all
  have "takeWhile (\<lambda>c. c \<noteq> CHR ''}'') x \<noteq> x"
    using assms by (auto simp: takeWhile_eq_all_conv)
  moreover have "length (takeWhile (\<lambda>c. c \<noteq> CHR ''}'') x) \<le> length x"
    by (rule length_takeWhile_le)
  ultimately show "length (takeWhile (\<lambda>c. c \<noteq> CHR ''}'') x) < length x"
    by (metis le_neq_implies_less takeWhile_eq_take take_all_iff order_refl)
qed

text \<open>A match that is closed inside \<open>x\<close> does not depend on what follows \<open>x\<close>.\<close>

lemma matchSource_closed:
  assumes "CHR ''}'' \<in> set x"
  shows "matchSource (c # x @ z) = matchSource (c # x)"
    and "matchSource (c # x) = Some (cap, n) \<Longrightarrow> n - 1 \<le> length x"
  using takeWhile_closed(1)[OF assms, of z] takeWhile_closed(2)[OF assms]
  by (auto simp: matchSource_def Let_def split: option.splits if_splits)

lemma matchSource_unclosed:
  assumes "CHR ''}'' \<notin> set x"
  shows "matchSource (c # x) = None"
proof -
  have "takeWhile (\<lambda>c. c \<noteq> CHR ''}'') x = x"
    using assms by (auto simp: takeWhile_eq_all_conv)
  then have "\<not> length (takeWhile (\<lambda>c. c \<noteq> CHR ''}'') x) < length x"
    by (metis less_irrefl)
  then show ?thesis by (simp add: matchSource_def Let_def)
qed

lemma takeWhile_until_close:
  assumes "CHR ''}'' \<notin> set u"
  shows "takeWhile (\<lambda>c. c \<noteq> CHR ''}'') (u @ CHR ''}'' # y) = u"
proof -
  have "takeWhile (\<lambda>c. c \<noteq> CHR ''}'') (u @ CHR ''}'' # y) = takeWhile (\<lambda>c. c \<noteq> CHR ''}'') u"
    by (rule takeWhile_tail) simp
  also have "\<dots> = u" using assms by (auto simp: takeWhile_eq_all_conv)
  finally show ?thesis .
qed

lemma matchSource_into_unlisted:
  assumes "CHR ''}'' \<notin> set x" and "CHR ''}'' \<notin> set v" and "sourceCapture v = None"
  shows "matchSource (c # x @ CHR ''{'' # v @ CHR ''}'' # y) = None"
proof -
  have "takeWhile (\<lambda>c. c \<noteq> CHR ''}'') ((x @ CHR ''{'' # v) @ CHR ''}'' # y) = x @ CHR ''{'' # v"
    using assms(1,2) by (intro takeWhile_until_close) simp
  then have "takeWhile (\<lambda>c. c \<noteq> CHR ''}'') (x @ CHR ''{'' # v @ CHR ''}'' # y) = x @ CHR ''{'' # v"
    by simp
  then show ?thesis
    using sourceCapture_after_open[OF assms(3), of x]
    by (simp add: matchSource_def Let_def)
qed

lemma matchSource_unlisted:
  assumes "CHR ''}'' \<notin> set v" and "sourceCapture v = None"
  shows "matchSource (CHR ''{'' # v @ CHR ''}'' # y) = None"
proof -
  have "takeWhile (\<lambda>c. c \<noteq> CHR ''}'') (v @ CHR ''}'' # y) = v"
    using assms(1) by (rule takeWhile_until_close)
  then show ?thesis using assms(2) by (simp add: matchSource_def Let_def)
qed

text \<open>The replacement of the \<open>source\<close> tokens leaves a placeholder that is not one of
  them as it is and works on the text before and after it separately.\<close>

lemma replaceSource_other_placeholder:
  assumes "braceFree v" and "sourceCapture v = None"
  shows "replaceSource app (x @ placeholder v @ y)
           = replaceSource app x @ placeholder v @ replaceSource app y"
proof (induction x rule: length_induct)
  case (1 x)
  have v: "CHR ''{'' \<notin> set v" "CHR ''}'' \<notin> set v" using assms(1) by (simp_all add: braceFree_def)
  show ?case
  proof (cases x)
    case Nil
    have "replaceSource app (placeholder v @ y)
            = CHR ''{'' # replaceSource app ((v @ ''}'') @ y)"
      using matchSource_unlisted[OF v(2) assms(2), of y] by (simp add: placeholder_def)
    also have "\<dots> = CHR ''{'' # (v @ ''}'') @ replaceSource app y"
      using v(1) by (subst replaceSource_no_open) auto
    finally show ?thesis using Nil by (simp add: placeholder_def)
  next
    case (Cons c x')
    let ?R = "placeholder v @ y"
    have R: "?R = CHR ''{'' # v @ CHR ''}'' # y" by (simp add: placeholder_def)
    have IH: "\<And>z. length z < length x \<Longrightarrow>
        replaceSource app (z @ ?R) = replaceSource app z @ placeholder v @ replaceSource app y"
      using 1 by simp
    have m: "matchSource (c # x' @ ?R) = matchSource (c # x')"
    proof (cases "CHR ''}'' \<in> set x'")
      case True
      then show ?thesis by (rule matchSource_closed(1))
    next
      case False
      then show ?thesis
        unfolding R using matchSource_unclosed[OF False, of c]
          matchSource_into_unlisted[OF False v(2) assms(2), of c y] by simp
    qed
    show ?thesis
    proof (cases "matchSource (c # x')")
      case None
      have e1: "replaceSource app (x @ ?R) = c # replaceSource app (x' @ ?R)"
        using m None Cons by simp
      have e2: "replaceSource app x = c # replaceSource app x'"
        using None Cons by simp
      show ?thesis unfolding e1 e2 using IH[of x'] Cons by simp
    next
      case (Some p)
      obtain cap n where p: "p = (cap, n)" by (cases p)
      have cl: "CHR ''}'' \<in> set x'"
        using Some matchSource_unclosed[of x' c] by auto
      have n: "n - 1 \<le> length x'"
        using matchSource_closed(2)[OF cl, of c cap n] Some p by simp
      have e1: "replaceSource app (x @ ?R)
                  = backrefs cap app @ replaceSource app (drop (n - 1) x' @ ?R)"
        using m Some p Cons n by simp
      have e2: "replaceSource app x = backrefs cap app @ replaceSource app (drop (n - 1) x')"
        using Some p Cons by simp
      show ?thesis unfolding e1 e2 using IH[of "drop (n - 1) x'"] Cons by simp
    qed
  qed
qed

lemma replace_other_placeholder:
  assumes "braceFree w" and "braceFree v" and "v \<noteq> w"
  shows "replace (placeholder w) a (x @ placeholder v @ y)
           = replace (placeholder w) a x @ placeholder v @ replace (placeholder w) a y"
  using replaceNE_other_placeholder[OF assms] by (simp add: replace_def placeholder_def)

lemma replace_occurrence:
  assumes "braceFree w"
  shows "replace (placeholder w) a (x @ placeholder w @ y)
           = replace (placeholder w) a x @ a @ replace (placeholder w) a y"
  using replaceNE_occurrence[OF assms] by (simp add: replace_def placeholder_def)

lemma replaceSource_match:
  assumes "CHR ''}'' \<notin> set bd" and "sourceCapture bd = Some cap"
  shows "replaceSource app (CHR ''{'' # bd @ CHR ''}'' # y) = backrefs cap app @ replaceSource app y"
proof -
  have "takeWhile (\<lambda>c. c \<noteq> CHR ''}'') (bd @ CHR ''}'' # y) = bd"
    using assms(1) by (rule takeWhile_until_close)
  then have "matchSource (CHR ''{'' # bd @ CHR ''}'' # y) = Some (cap, length bd + 2)"
    using assms(2) by (simp add: matchSource_def Let_def)
  then show ?thesis by simp
qed

lemma backrefs_plain: "CHR 0x5C \<notin> set app \<Longrightarrow> backrefs cap app = app"
  by (induction cap app rule: backrefs.induct) auto

text \<open>The bodies the expression matches: \<open>source\<close>, then an optional question mark, alone
  or after a prefix that ends in a colon.\<close>

lemma sourceCapture_iff:
  "sourceCapture bd = Some cap \<longleftrightarrow>
     (cap = [] \<or> suffix '':'' cap) \<and> (bd = cap @ ''source'' \<or> bd = cap @ ''source?'')"
proof
  assume a: "sourceCapture bd = Some cap"
  define stem where "stem = (if suffix ''?'' bd then butlast bd else bd)"
  have s: "suffix ''source'' stem" "length stem = 6 \<or> suffix '':source'' stem"
    "cap = take (length stem - 6) stem"
    using a by (auto simp: sourceCapture_def Let_def stem_def split: if_splits)
  obtain z where z: "stem = z @ ''source''" using s(1) by (auto simp: suffix_def)
  have c: "cap = z" using s(3) z by simp
  have b: "bd = stem \<or> bd = stem @ ''?''"
    by (auto simp: stem_def suffix_def)
  have "z = [] \<or> suffix '':'' z"
    using s(2) z by (auto simp: suffix_def)
  then show "(cap = [] \<or> suffix '':'' cap) \<and> (bd = cap @ ''source'' \<or> bd = cap @ ''source?'')"
    using b c z by auto
next
  assume a: "(cap = [] \<or> suffix '':'' cap) \<and> (bd = cap @ ''source'' \<or> bd = cap @ ''source?'')"
  then have p: "cap = [] \<or> suffix '':source'' (cap @ ''source'')"
    by (auto simp: suffix_def)
  from a consider "bd = cap @ ''source''" | "bd = cap @ ''source?''" by blast
  then show "sourceCapture bd = Some cap"
  proof cases
    case 1
    then have "\<not> suffix ''?'' bd" by (auto simp: suffix_def)
    then show ?thesis using 1 p by (auto simp: sourceCapture_def Let_def suffix_def)
  next
    case 2
    then have q: "suffix ''?'' bd" by (auto simp: suffix_def)
    have "butlast bd = cap @ ''source''" using 2 by (simp add: butlast_append)
    then show ?thesis using q p by (auto simp: sourceCapture_def Let_def suffix_def)
  qed
qed

lemma parseTemplate_spec: "parseTemplate env t s = spec_expand env (toPercentEncoding t) s"
  by (simp add: parseTemplate_def spec_expand_def spec_steps_def Let_def)

lemma parseTemplate_legacy_spec: "parseTemplate_legacy env t s = spec_expand env t s"
  by (simp add: parseTemplate_legacy_def spec_expand_def spec_steps_def Let_def)

lemma spec_expand_unlisted:
  assumes "unlisted v"
  shows "spec_expand env term (x @ placeholder v @ y)
           = spec_expand env term x @ placeholder v @ spec_expand env term y"
proof -
  have v: "braceFree v" "sourceCapture v = None"
    and ne: "v \<noteq> ''count''" "v \<noteq> ''startIndex''" "v \<noteq> ''startPage''" "v \<noteq> ''language''"
      "v \<noteq> ''inputEncoding''" "v \<noteq> ''outputEncoding''" "v \<noteq> ''searchTerms''"
    using assms by (auto simp: unlisted_def literalNames_def)
  have n: "''{count}'' = placeholder ''count''" "''{startIndex}'' = placeholder ''startIndex''"
    "''{startPage}'' = placeholder ''startPage''" "''{language}'' = placeholder ''language''"
    "''{inputEncoding}'' = placeholder ''inputEncoding''"
    "''{outputEncoding}'' = placeholder ''outputEncoding''"
    "''{searchTerms}'' = placeholder ''searchTerms''"
    by (simp_all add: placeholder_def)
  have bf: "braceFree ''count''" "braceFree ''startIndex''" "braceFree ''startPage''"
    "braceFree ''language''" "braceFree ''inputEncoding''" "braceFree ''outputEncoding''"
    "braceFree ''searchTerms''"
    by (simp_all add: braceFree_def)
  note r = replace_other_placeholder[OF bf(1) v(1) ne(1)]
    replace_other_placeholder[OF bf(2) v(1) ne(2)]
    replace_other_placeholder[OF bf(3) v(1) ne(3)]
    replace_other_placeholder[OF bf(4) v(1) ne(4)]
    replace_other_placeholder[OF bf(5) v(1) ne(5)]
    replace_other_placeholder[OF bf(6) v(1) ne(6)]
    replace_other_placeholder[OF bf(7) v(1) ne(7)]
    replaceSource_other_placeholder[OF v]
  show ?thesis
    unfolding spec_expand_def spec_steps_def foldl.simps substitute.simps n
    by (simp only: r)
qed

text \<open>
  Claim C2, as the code has it. \<open>parseTemplate\<close> applies the substitutions of \<open>spec_steps\<close> in
  their order, each to the whole text that the one before has produced:
  \<open>{count}\<close> to \<open>20\<close>, \<open>{startIndex}\<close> and \<open>{startPage}\<close> to \<open>0\<close>, \<open>{language}\<close> to the locale name
  with hyphens for underscores, \<open>{inputEncoding}\<close> and \<open>{outputEncoding}\<close> to \<open>UTF-8\<close>, every
  brace-wrapped token that is \<open>source\<close> or \<open>source?\<close>, alone or after a prefix ending in a
  colon, to the application name (in which Qt replaces a back-reference \<^verbatim>\<open>\1\<close> by that
  prefix), and at last \<open>{searchTerms}\<close> to the percent-encoded search term; the earlier
  revision of the engine inserts the search term as it is. A literal substitution
  replaces every occurrence, and a placeholder that is none of these is left as it is,
  the text before it and the text after it being expanded separately.
\<close>

theorem template_expansion_in_order:
  "parseTemplate env t s = spec_expand env (toPercentEncoding t) s
   \<and> parseTemplate_legacy env t s = spec_expand env t s
   \<and> (braceFree w
        \<longrightarrow> replace (placeholder w) a (x @ placeholder w @ y)
              = replace (placeholder w) a x @ a @ replace (placeholder w) a y)
   \<and> (sourceCapture bd = Some cap
        \<longleftrightarrow> (cap = [] \<or> suffix '':'' cap) \<and> (bd = cap @ ''source'' \<or> bd = cap @ ''source?''))
   \<and> (CHR ''}'' \<notin> set bd \<and> sourceCapture bd = Some cap
        \<longrightarrow> replaceSource app (CHR ''{'' # bd @ CHR ''}'' # y)
              = backrefs cap app @ replaceSource app y)
   \<and> (CHR 0x5C \<notin> set app \<longrightarrow> backrefs cap app = app)
   \<and> (unlisted v
        \<longrightarrow> parseTemplate env t (x @ placeholder v @ y)
              = parseTemplate env t x @ placeholder v @ parseTemplate env t y)"
  using parseTemplate_spec[of env t] parseTemplate_legacy_spec[of env t s]
    replace_occurrence[of w a x y] sourceCapture_iff[of bd cap]
    replaceSource_match[of bd cap app y] backrefs_plain[of app cap]
    spec_expand_unlisted[of v env "toPercentEncoding t" x y]
  by simp

theorem template_expansion_in_order_witness:
  "braceFree ''count''
   \<and> replace (placeholder ''count'') ''20'' (''a{count}'' @ placeholder ''count'' @ ''b'')
       = ''a2020b''
   \<and> CHR ''}'' \<notin> set ''google:source?'' \<and> sourceCapture ''google:source?'' = Some ''google:''
   \<and> CHR 0x5C \<notin> set ''browser''
   \<and> replaceSource ''browser'' (CHR ''{'' # ''google:source?'' @ CHR ''}'' # ''&x'') = ''browser&x''
   \<and> unlisted ''mysource''
   \<and> parseTemplate sampleEnv ''a b'' (''q={searchTerms}&u='' @ placeholder ''mysource'' @ ''&n={count}'')
       = ''q=a%20b&u={mysource}&n=20''"
proof -
  have b: "braceFree ''count''" by (simp add: braceFree_def)
  have r1: "replace (placeholder ''count'') ''20'' ''a{count}'' = ''a20''"
    "replace (placeholder ''count'') ''20'' ''b'' = ''b''"
    by code_simp+
  have c: "CHR ''}'' \<notin> set ''google:source?''" "CHR 0x5C \<notin> set ''browser''" by simp_all
  have sc: "sourceCapture ''google:source?'' = Some ''google:''"
    using template_expansion_in_order[where bd = "''google:source?''" and cap = "''google:''"]
    by (simp add: suffix_def)
  have r2: "replaceSource ''browser'' ''&x'' = ''&x''" by code_simp
  have u: "unlisted ''mysource''"
    by (simp add: unlisted_def braceFree_def literalNames_def sourceCapture_def suffix_def)
  have p: "parseTemplate sampleEnv ''a b'' ''q={searchTerms}&u='' = ''q=a%20b&u=''"
    "parseTemplate sampleEnv ''a b'' ''&n={count}'' = ''&n=20''"
    by code_simp+
  have t1: "replace (placeholder ''count'') ''20'' (''a{count}'' @ placeholder ''count'' @ ''b'')
       = ''a2020b''"
    using template_expansion_in_order[where w = "''count''" and a = "''20''" and x = "''a{count}''"
        and y = "''b''"] b r1
    by simp
  have t2: "replaceSource ''browser'' (CHR ''{'' # ''google:source?'' @ CHR ''}'' # ''&x'') = ''browser&x''"
    using template_expansion_in_order[where bd = "''google:source?''" and cap = "''google:''"
        and app = "''browser''" and y = "''&x''"] c sc r2
    by simp
  have t3: "parseTemplate sampleEnv ''a b'' (''q={searchTerms}&u='' @ placeholder ''mysource'' @ ''&n={count}'')
       = ''q=a%20b&u={mysource}&n=20''"
  proof -
    have "parseTemplate sampleEnv ''a b'' (''q={searchTerms}&u='' @ placeholder ''mysource'' @ ''&n={count}'')
       = parseTemplate sampleEnv ''a b'' ''q={searchTerms}&u='' @ placeholder ''mysource''
           @ parseTemplate sampleEnv ''a b'' ''&n={count}''"
      using template_expansion_in_order[where v = "''mysource''" and env = sampleEnv
          and t = "''a b''" and x = "''q={searchTerms}&u=''" and y = "''&n={count}''"] u
      by blast
    then show ?thesis unfolding p by (simp add: placeholder_def)
  qed
  show ?thesis using b t1 c sc t2 u t3 by blast
qed

theorem search_term_is_not_inserted_as_it_is:
  "parseTemplate sampleEnv ''a b'' ''q={searchTerms}'' = ''q=a%20b''
   \<and> spec_expand sampleEnv ''a b'' ''q={searchTerms}'' = ''q=a b''
   \<and> parseTemplate sampleEnv ''a b'' ''q={searchTerms}''
       \<noteq> spec_expand sampleEnv ''a b'' ''q={searchTerms}''"
proof -
  have a: "parseTemplate sampleEnv ''a b'' ''q={searchTerms}'' = ''q=a%20b''" by code_simp
  have b: "spec_expand sampleEnv ''a b'' ''q={searchTerms}'' = ''q=a b''" by code_simp
  show ?thesis unfolding a b by simp
qed

end
